theory Spec2Isabelle
  imports Main "HOL-Library.Sublist"
begin

section \<open>Text primitives of the converter\<close>

text \<open>
  The converter (\<^verbatim>\<open>skills/md2ipynb/scripts/convert.py\<close>) works on Python strings.
  A text is modelled as a \<^typ>\<open>string\<close>, one \<^typ>\<open>char\<close> per code point, which covers
  the code points below 256. The three character classes the source relies on are
  written out for that range as Python defines them:
  \<^item> \<open>isspace\<close>: what \<^verbatim>\<open>str.strip()\<close> removes (U+0009..U+000D, U+001C..U+0020,
    U+0085, U+00A0);
  \<^item> \<open>isword\<close>: what \<^verbatim>\<open>\w\<close> matches in a \<^verbatim>\<open>str\<close> pattern (alphanumeric or underscore);
  \<^item> \<open>lower_char\<close>: \<^verbatim>\<open>str.lower()\<close> on one character. On these code points
    \<^verbatim>\<open>str.lower()\<close> maps every character to one character; the code point where it
    does not, U+0130, lies outside and is treated in a section of its own below.
\<close>

definition isspace :: "char \<Rightarrow> bool" where
  "isspace c \<longleftrightarrow>
     (let n = (of_char c :: nat)
      in (9 \<le> n \<and> n \<le> 13) \<or> (28 \<le> n \<and> n \<le> 32) \<or> n = 133 \<or> n = 160)"

definition isword :: "char \<Rightarrow> bool" where
  "isword c \<longleftrightarrow>
     (let n = (of_char c :: nat)
      in (48 \<le> n \<and> n \<le> 57) \<or> (65 \<le> n \<and> n \<le> 90) \<or> n = 95 \<or> (97 \<le> n \<and> n \<le> 122)
         \<or> n = 170 \<or> n = 178 \<or> n = 179 \<or> n = 181 \<or> n = 185 \<or> n = 186
         \<or> (188 \<le> n \<and> n \<le> 190) \<or> (192 \<le> n \<and> n \<le> 214) \<or> (216 \<le> n \<and> n \<le> 246)
         \<or> (248 \<le> n \<and> n \<le> 255))"

definition lower_char :: "char \<Rightarrow> char" where
  "lower_char c =
     (let n = (of_char c :: nat)
      in if (65 \<le> n \<and> n \<le> 90) \<or> (192 \<le> n \<and> n \<le> 214) \<or> (216 \<le> n \<and> n \<le> 222)
         then char_of (n + 32) else c)"

definition lower :: "string \<Rightarrow> string" where
  "lower s = map lower_char s"

text \<open>\<^verbatim>\<open>s.lstrip()\<close>, \<^verbatim>\<open>s.rstrip()\<close> and \<^verbatim>\<open>s.strip()\<close>.\<close>

definition lstrip :: "string \<Rightarrow> string" where
  "lstrip s = dropWhile isspace s"

definition rstrip :: "string \<Rightarrow> string" where
  "rstrip s = rev (dropWhile isspace (rev s))"

definition strip :: "string \<Rightarrow> string" where
  "strip s = rstrip (lstrip s)"

text \<open>\<^verbatim>\<open>s.startswith(p)\<close>.\<close>

definition startswith :: "string \<Rightarrow> string \<Rightarrow> bool" where
  "startswith s p \<longleftrightarrow> take (length p) s = p"

text \<open>
  \<^verbatim>\<open>s.split('\n')\<close>: the list of lines, never empty (the empty text is one empty line).
  The last case of the inner \<open>case\<close> cannot occur and only makes the definition total.
\<close>

fun split_nl :: "string \<Rightarrow> string list" where
  "split_nl [] = [[]]"
| "split_nl (c # cs) =
     (if c = CHR 0x0A then [] # split_nl cs
      else (case split_nl cs of l # ls \<Rightarrow> (c # l) # ls | [] \<Rightarrow> [[c]]))"

text \<open>\<^verbatim>\<open>'\n'.join(lines)\<close>.\<close>

fun join_nl :: "string list \<Rightarrow> string" where
  "join_nl [] = []"
| "join_nl [l] = l"
| "join_nl (l # l' # ls) = l @ [CHR 0x0A] @ join_nl (l' # ls)"

text \<open>The slice \<^verbatim>\<open>s[a:b]\<close> for indices \<open>0 \<le> a\<close>, \<open>0 \<le> b\<close>: empty when \<open>b \<le> a\<close>.\<close>

definition slice :: "string \<Rightarrow> nat \<Rightarrow> nat \<Rightarrow> string" where
  "slice s a b = take (b - a) (drop a s)"

section \<open>Front-matter stripper\<close>

text \<open>
  The \<^verbatim>\<open>for i, line in enumerate(lines)\<close> loop of \<^verbatim>\<open>remove_front_matter\<close>: the state is
  \<^verbatim>\<open>in_front_matter\<close>, the result is \<^verbatim>\<open>end_index\<close> (0 when the loop ends without
  \<^verbatim>\<open>break\<close>). The first argument is the index \<^verbatim>\<open>i\<close> of the head of the list.
\<close>

fun fm_scan :: "nat \<Rightarrow> string list \<Rightarrow> bool \<Rightarrow> nat" where
  "fm_scan i [] in_front_matter = 0"
| "fm_scan i (line # rest) in_front_matter =
     (if strip line = ''---''
      then (if \<not> in_front_matter then fm_scan (i + 1) rest True else i + 1)
      else fm_scan (i + 1) rest in_front_matter)"

definition remove_front_matter :: "string \<Rightarrow> string" where
  "remove_front_matter content =
     (if \<not> startswith content ''---'' then content
      else (let lines = split_nl content;
                end_index = fm_scan 0 lines False
            in if end_index > 0 then join_nl (drop end_index lines) else content))"

section \<open>Fence-aware segmenter\<close>

record seg_state =
  sections :: "string list"
  current_section :: "string list"
  in_code_block :: bool

definition seg_init :: seg_state where
  "seg_init = \<lparr>sections = [], current_section = [], in_code_block = False\<rparr>"

text \<open>The saving of a section: joined, trimmed, appended when non-empty.\<close>

definition save_section :: "string list \<Rightarrow> string list \<Rightarrow> string list" where
  "save_section secs cur =
     (let section_content = strip (join_nl cur)
      in if section_content \<noteq> [] then secs @ [section_content] else secs)"

text \<open>The test \<^verbatim>\<open>stripped.startswith('```')\<close> on a line.\<close>

definition fence_line :: "string \<Rightarrow> bool" where
  "fence_line line \<longleftrightarrow> startswith (strip line) ''```''"

text \<open>One iteration of the \<^verbatim>\<open>for line in lines\<close> loop of \<^verbatim>\<open>split_by_delimiter\<close>.\<close>

definition seg_step :: "string \<Rightarrow> seg_state \<Rightarrow> string \<Rightarrow> seg_state" where
  "seg_step delimiter st line =
     (let stripped = strip line
      in if startswith stripped ''```''
         then st\<lparr>in_code_block := \<not> in_code_block st,
                 current_section := current_section st @ [line]\<rparr>
         else if \<not> in_code_block st \<and> stripped = delimiter
         then st\<lparr>sections := save_section (sections st) (current_section st),
                 current_section := []\<rparr>
         else st\<lparr>current_section := current_section st @ [line]\<rparr>)"

definition seg_run :: "string \<Rightarrow> seg_state \<Rightarrow> string list \<Rightarrow> seg_state" where
  "seg_run delimiter st lines = foldl (seg_step delimiter) st lines"

definition split_by_delimiter :: "string \<Rightarrow> string \<Rightarrow> string list" where
  "split_by_delimiter content delimiter =
     (let st = seg_run delimiter seg_init (split_nl content)
      in save_section (sections st) (current_section st))"

text \<open>
  The text rebuilt from a list of sections: \<^verbatim>\<open>'\n---\n'.join(sections)\<close>, the sections
  with a delimiter line between each two.
\<close>

fun join_sections :: "string list \<Rightarrow> string" where
  "join_sections [] = []"
| "join_sections [s] = s"
| "join_sections (s # s' # ss) = s @ ''\<newline>---\<newline>'' @ join_sections (s' # ss)"

text \<open>
  The control flow of the loop of \<^verbatim>\<open>split_by_delimiter\<close> alone: starting with the fence
  state \<open>b\<close>, the lines \<open>ls\<close> either contain a line that ends a section (\<open>None\<close>) or
  are all appended to the current section and leave the fence state \<open>b'\<close> (\<open>Some b'\<close>).
\<close>

fun fence_scan :: "string \<Rightarrow> bool \<Rightarrow> string list \<Rightarrow> bool option" where
  "fence_scan d b [] = Some b"
| "fence_scan d b (l # ls) =
     (if fence_line l then fence_scan d (\<not> b) ls
      else if \<not> b \<and> strip l = d then None
      else fence_scan d b ls)"

text \<open>
  A well-formed section text \<open>S\<close>: not empty, trimmed, and its lines contain no line
  that ends a section and leave the fence state \<open>b\<close>. The invariant of the loop of
  \<^verbatim>\<open>split_by_delimiter\<close>: the current section replays without a break to the current
  fence state, its lines hold no newline, and the saved sections are well formed with a
  closed fence.
\<close>

definition section_ok :: "string \<Rightarrow> bool \<Rightarrow> string \<Rightarrow> bool" where
  "section_ok d b S \<longleftrightarrow> S \<noteq> [] \<and> strip S = S \<and> fence_scan d False (split_nl S) = Some b"

definition seg_inv :: "string \<Rightarrow> seg_state \<Rightarrow> bool" where
  "seg_inv d st \<longleftrightarrow>
     fence_scan d False (current_section st) = Some (in_code_block st)
     \<and> (\<forall>l\<in>set (current_section st). CHR 0x0A \<notin> set l)
     \<and> (\<forall>S\<in>set (sections st). section_ok d False S)"

section \<open>Section cell extractor\<close>

text \<open>
  A block is the dictionary with the keys \<^verbatim>\<open>type\<close>, \<^verbatim>\<open>content\<close> and \<^verbatim>\<open>language\<close> that
  the extractor builds; \<^verbatim>\<open>type\<close> is \<^verbatim>\<open>'markdown'\<close> or \<^verbatim>\<open>'code'\<close>, the only two values
  written, and \<^verbatim>\<open>language\<close> is \<^verbatim>\<open>None\<close> or a string.
\<close>

datatype cell_type = Markdown | Code

record cell =
  ctype :: cell_type
  content :: string
  language :: "string option"

text \<open>
  A match of the pattern \<^verbatim>\<open>^```(\w*)\n(.*?)^```$\<close> (flags MULTILINE and DOTALL):
  \<^verbatim>\<open>match.start()\<close>, \<^verbatim>\<open>match.end()\<close>, \<^verbatim>\<open>match.group(1)\<close>, \<^verbatim>\<open>match.group(2)\<close>.
\<close>

record rmatch =
  m_start :: nat
  m_end :: nat
  group1 :: string
  group2 :: string

text \<open>\<^verbatim>\<open>^\<close> under MULTILINE: at the start of the text or right after a newline.\<close>

definition at_bol :: "string \<Rightarrow> nat \<Rightarrow> bool" where
  "at_bol s p \<longleftrightarrow> p = 0 \<or> (p \<le> length s \<and> s ! (p - 1) = CHR 0x0A)"

text \<open>\<^verbatim>\<open>$\<close> under MULTILINE: at the end of the text or right before a newline.\<close>

definition at_eol :: "string \<Rightarrow> nat \<Rightarrow> bool" where
  "at_eol s p \<longleftrightarrow> p = length s \<or> (p < length s \<and> s ! p = CHR 0x0A)"

definition ticks_at :: "string \<Rightarrow> nat \<Rightarrow> bool" where
  "ticks_at s p \<longleftrightarrow> slice s p (p + 3) = ''```''"

text \<open>
  The lazy \<^verbatim>\<open>(.*?)\<close> followed by \<^verbatim>\<open>^```$\<close>: the first position \<open>q\<close> at or after the start
  of the body where a line consisting of the three backticks begins. With DOTALL the
  dot matches every character, so every \<open>q\<close> is tried in increasing order.
\<close>

function find_close :: "string \<Rightarrow> nat \<Rightarrow> nat option" where
  "find_close s q =
     (if length s < q + 3 then None
      else if at_bol s q \<and> ticks_at s q \<and> at_eol s (q + 3) then Some q
      else find_close s (q + 1))"
  by pat_completeness auto
termination
  by (relation "measure (\<lambda>(s, q). length s - q)") auto

declare find_close.simps [simp del]

text \<open>
  An attempt to match at position \<open>p\<close>. The greedy \<^verbatim>\<open>\w*\<close> takes the longest run of word
  characters: a shorter run would have to be followed by a newline, which is not a word
  character, so backtracking into it never succeeds.
\<close>

definition match_at :: "string \<Rightarrow> nat \<Rightarrow> rmatch option" where
  "match_at s p =
     (if at_bol s p \<and> ticks_at s p
      then (let tag = takeWhile isword (drop (p + 3) s);
                nl = p + 3 + length tag
            in if nl < length s \<and> s ! nl = CHR 0x0A
               then (case find_close s (nl + 1) of
                       None \<Rightarrow> None
                     | Some q \<Rightarrow> Some \<lparr>m_start = p, m_end = q + 3, group1 = tag,
                                        group2 = slice s (nl + 1) q\<rparr>)
               else None)
      else None)"

lemma find_close_bounds:
  "find_close s q = Some r \<Longrightarrow> q \<le> r \<and> r + 3 \<le> length s"
proof (induction s q rule: find_close.induct)
  case (1 s q)
  then show ?case
    by (subst (asm) (2) find_close.simps) (fastforce split: if_splits)
qed

lemma match_at_bounds:
  assumes "match_at s p = Some m"
  shows "m_start m = p" and "p + 7 \<le> m_end m" and "m_end m \<le> length s"
proof -
  from assms obtain q where
    q: "find_close s (p + 3 + length (takeWhile isword (drop (p + 3) s)) + 1) = Some q"
    and m: "m_end m = q + 3" "m_start m = p"
    by (auto simp: match_at_def Let_def split: if_splits option.splits)
  from find_close_bounds [OF q] m
  show "m_start m = p" and "p + 7 \<le> m_end m" and "m_end m \<le> length s"
    by simp_all
qed

text \<open>
  \<^verbatim>\<open>pattern.finditer(section)\<close>: the non-overlapping matches from left to right. The
  search tries every position from \<open>p\<close> on; after a match (which is never empty) it
  resumes at the end of the match.
\<close>

function finditer_from :: "string \<Rightarrow> nat \<Rightarrow> rmatch list" where
  "finditer_from s p =
     (if length s < p then []
      else (case match_at s p of
              Some m \<Rightarrow> m # finditer_from s (m_end m)
            | None \<Rightarrow> finditer_from s (p + 1)))"
  by pat_completeness auto
termination
proof (relation "measure (\<lambda>(s, p). length s + 1 - p)")
  fix s :: string and p :: nat and m :: rmatch
  assume "\<not> length s < p" and "match_at s p = Some m"
  then show "((s, m_end m), (s, p)) \<in> measure (\<lambda>(s, p). length s + 1 - p)"
    using match_at_bounds(2,3) [of s p m] by simp
qed auto

declare finditer_from.simps [simp del]

definition finditer :: "string \<Rightarrow> rmatch list" where
  "finditer s = finditer_from s 0"

definition markdown_cell :: "string \<Rightarrow> cell" where
  "markdown_cell c = \<lparr>ctype = Markdown, content = c, language = None\<rparr>"

definition code_cell :: "string \<Rightarrow> string \<Rightarrow> cell" where
  "code_cell c l = \<lparr>ctype = Code, content = c, language = Some l\<rparr>"

text \<open>
  The \<^verbatim>\<open>for match in ...\<close> loop of \<^verbatim>\<open>extract_cells_from_section\<close>, with its two
  variables \<^verbatim>\<open>cells\<close> and \<^verbatim>\<open>last_end\<close>; the result is their final value.
\<close>

fun extract_loop ::
  "string \<Rightarrow> string set \<Rightarrow> rmatch list \<Rightarrow> cell list \<Rightarrow> nat \<Rightarrow> cell list \<times> nat" where
  "extract_loop section code_languages [] cells last_end = (cells, last_end)"
| "extract_loop section code_languages (m # ms) cells last_end =
     (let language = lower (group1 m)
      in if language \<in> code_languages
         then (let before_content = strip (slice section last_end (m_start m));
                   cells1 = (if before_content \<noteq> [] then cells @ [markdown_cell before_content]
                             else cells);
                   code_content = rstrip (group2 m);
                   cells2 = cells1 @ [code_cell code_content language]
               in extract_loop section code_languages ms cells2 (m_end m))
         else extract_loop section code_languages ms cells last_end)"

definition extract_cells_from_section :: "string \<Rightarrow> string set \<Rightarrow> cell list" where
  "extract_cells_from_section section code_languages =
     (case extract_loop section code_languages (finditer section) [] 0 of
        (cells, last_end) \<Rightarrow>
          (let after_content = strip (slice section last_end (length section))
           in if after_content \<noteq> [] then cells @ [markdown_cell after_content] else cells))"

text \<open>
  A text \<open>t\<close> appears inside a prose block of a list of blocks: it is a contiguous part
  of the content of a markdown block.
\<close>

definition in_prose :: "string \<Rightarrow> cell list \<Rightarrow> bool" where
  "in_prose t cells \<longleftrightarrow> (\<exists>c\<in>set cells. ctype c = Markdown \<and> sublist t (content c))"

text \<open>
  Lower-casing the text of a match and the content of a block; they relate the results
  on a text to the results on its lower-cased form.
\<close>

definition lower_match :: "rmatch \<Rightarrow> rmatch" where
  "lower_match m = m\<lparr>group1 := lower (group1 m), group2 := lower (group2 m)\<rparr>"


section \<open>Pipeline and notebook assembly\<close>

definition DEFAULT_CODE_LANGUAGES :: "string set" where
  "DEFAULT_CODE_LANGUAGES = {''python'', ''sql''}"

text \<open>
  \<^verbatim>\<open>parse_markdown\<close>; the optional argument \<^verbatim>\<open>code_languages=None\<close> is an
  \<^typ>\<open>string set option\<close>.
\<close>

definition parse_markdown :: "string \<Rightarrow> string set option \<Rightarrow> cell list" where
  "parse_markdown content0 code_languages0 =
     (let code_languages = (case code_languages0 of None \<Rightarrow> DEFAULT_CODE_LANGUAGES
                                                  | Some l \<Rightarrow> l);
          content1 = remove_front_matter content0;
          sections = split_by_delimiter content1 ''---'';
          cells = concat (map (\<lambda>section. extract_cells_from_section section code_languages)
                              sections)
      in filter (\<lambda>c. strip (content c) \<noteq> []) cells)"

text \<open>
  The cells of the notebook built by \<^verbatim>\<open>create_notebook\<close>. \<^verbatim>\<open>new_markdown_cell\<close> and
  \<^verbatim>\<open>new_code_cell\<close> belong to the nbformat library; of their result the model keeps
  the cell type, the source and the metadata dictionary, which they create empty.
\<close>

record nb_cell =
  cell_type :: cell_type
  source :: string
  metadata :: "string \<rightharpoonup> string"

definition new_markdown_cell :: "string \<Rightarrow> nb_cell" where
  "new_markdown_cell src = \<lparr>cell_type = Markdown, source = src, metadata = Map.empty\<rparr>"

definition new_code_cell :: "string \<Rightarrow> nb_cell" where
  "new_code_cell src = \<lparr>cell_type = Code, source = src, metadata = Map.empty\<rparr>"

text \<open>
  One iteration of the loop of \<^verbatim>\<open>create_notebook\<close>. The test
  \<^verbatim>\<open>cell.get('language') and cell['language'] != 'python'\<close> is false for a missing and
  for an empty language: both are falsy in Python.
\<close>

definition notebook_cell :: "cell \<Rightarrow> nb_cell" where
  "notebook_cell c =
     (case ctype c of
        Markdown \<Rightarrow> new_markdown_cell (content c)
      | Code \<Rightarrow>
          (let code_cell = new_code_cell (content c)
           in (case language c of
                 Some l \<Rightarrow> if l \<noteq> [] \<and> l \<noteq> ''python''
                           then code_cell\<lparr>metadata := (metadata code_cell)(''language'' \<mapsto> l)\<rparr>
                           else code_cell
               | None \<Rightarrow> code_cell)))"

definition create_notebook :: "cell list \<Rightarrow> nb_cell list" where
  "create_notebook cells = foldl (\<lambda>nb c. nb @ [notebook_cell c]) [] cells"

section \<open>The extractor on a wider repertoire of characters\<close>

























section \<open>Facts about lines and trimming\<close>

lemma split_nl_not_Nil [simp]: "split_nl s \<noteq> []"
  by (induction s) (auto split: list.splits)

lemma split_nl_Cons_other:
  "c \<noteq> CHR 0x0A \<Longrightarrow> split_nl (c # cs) = (c # hd (split_nl cs)) # tl (split_nl cs)"
  by (cases "split_nl cs") auto

lemma join_nl_Cons: "ls \<noteq> [] \<Longrightarrow> join_nl (l # ls) = l @ CHR 0x0A # join_nl ls"
  by (cases ls) auto

lemma join_nl_hd_Cons:
  "ls \<noteq> [] \<Longrightarrow> join_nl ((c # hd ls) # tl ls) = c # join_nl ls"
  by (cases ls; cases "tl ls") auto

lemma join_split_nl [simp]: "join_nl (split_nl s) = s"
proof (induction s)
  case Nil
  show ?case by simp
next
  case (Cons c cs)
  show ?case
  proof (cases "c = CHR 0x0A")
    case True
    then show ?thesis using Cons by (simp add: join_nl_Cons)
  next
    case False
    obtain l x where lx: "split_nl cs = l # x" by (cases "split_nl cs") auto
    have "join_nl ((c # l) # x) = c # join_nl (l # x)" by (cases x) auto
    then show ?thesis using False Cons lx by simp
  qed
qed


lemma split_nl_append:
  "CHR 0x0A \<notin> set a \<Longrightarrow> split_nl (a @ CHR 0x0A # b) = a # split_nl b"
  by (induction a) (auto)

lemma split_nl_no_nl: "CHR 0x0A \<notin> set a \<Longrightarrow> split_nl a = [a]"
  by (induction a) auto

lemma split_nl_lines: "l \<in> set (split_nl s) \<Longrightarrow> CHR 0x0A \<notin> set l"
proof (induction s arbitrary: l)
  case Nil
  then show ?case by simp
next
  case (Cons c cs)
  then show ?case
    by (cases "split_nl cs") (auto split: if_splits)
qed

lemma split_join_nl:
  "ls \<noteq> [] \<Longrightarrow> \<forall>l\<in>set ls. CHR 0x0A \<notin> set l \<Longrightarrow> split_nl (join_nl ls) = ls"
proof (induction ls rule: join_nl.induct)
  case 1
  then show ?case by simp
next
  case (2 l)
  then show ?case by (simp add: split_nl_no_nl)
next
  case (3 l l' ls)
  then show ?case by (simp add: split_nl_append)
qed

lemma isspace_nl [simp]: "isspace CHR 0x0A"
  by (simp add: isspace_def)

lemma not_isspace_tick [simp]: "\<not> isspace CHR 0x60"
  by (simp add: isspace_def)

lemma not_isspace_dash [simp]: "\<not> isspace CHR ''-''"
  by (simp add: isspace_def)

lemma rstrip_Nil [simp]: "rstrip [] = []"
  by (simp add: rstrip_def)

lemma strip_Nil [simp]: "strip [] = []"
  by (simp add: strip_def lstrip_def)

lemma rstrip_snoc: "rstrip (s @ [c]) = (if isspace c then rstrip s else s @ [c])"
  by (simp add: rstrip_def)

lemma rstrip_eq_Nil: "rstrip s = [] \<longleftrightarrow> (\<forall>c\<in>set s. isspace c)"
  by (auto simp: rstrip_def dropWhile_eq_Nil_conv)

lemma lstrip_eq_Nil: "lstrip s = [] \<longleftrightarrow> (\<forall>c\<in>set s. isspace c)"
  by (auto simp: lstrip_def dropWhile_eq_Nil_conv)

lemma set_lstrip: "set (lstrip s) \<subseteq> set s"
  by (auto simp: lstrip_def dest: set_dropWhileD)

lemma strip_eq_Nil: "strip s = [] \<longleftrightarrow> (\<forall>c\<in>set s. isspace c)"
proof
  assume "strip s = []"
  then have a: "\<forall>c\<in>set (lstrip s). isspace c" by (simp add: strip_def rstrip_eq_Nil)
  show "\<forall>c\<in>set s. isspace c"
  proof (rule ccontr)
    assume "\<not> (\<forall>c\<in>set s. isspace c)"
    then have "lstrip s \<noteq> []" by (simp add: lstrip_eq_Nil)
    then have "\<not> isspace (hd (lstrip s))" unfolding lstrip_def by (rule hd_dropWhile)
    moreover have "hd (lstrip s) \<in> set (lstrip s)" using \<open>lstrip s \<noteq> []\<close> by simp
    ultimately show False using a by blast
  qed
next
  assume "\<forall>c\<in>set s. isspace c"
  then have "lstrip s = []" by (simp add: lstrip_eq_Nil)
  then show "strip s = []" by (simp add: strip_def)
qed

lemma strip_Cons_space: "isspace c \<Longrightarrow> strip (c # s) = strip s"
  by (simp add: strip_def lstrip_def)

lemma rstrip_dropWhile: "rstrip (dropWhile isspace s) = dropWhile isspace (rstrip s)"
proof (induction s rule: rev_induct)
  case Nil
  show ?case by simp
next
  case (snoc c s)
  show ?case
  proof (cases "\<forall>x\<in>set s. isspace x")
    case True
    then have "dropWhile isspace (s @ [c]) = dropWhile isspace [c]" and "rstrip s = []"
      by (simp_all add: rstrip_eq_Nil)
    moreover have "rstrip [c] = (if isspace c then [] else [c])"
      using rstrip_snoc [of "[]" c] by simp
    ultimately show ?thesis by (simp add: rstrip_snoc)
  next
    case False
    then have "dropWhile isspace (s @ [c]) = dropWhile isspace s @ [c]"
      by (auto simp: dropWhile_append1)
    then show ?thesis using snoc False
      by (auto simp: rstrip_snoc dropWhile_append1)
  qed
qed

lemma strip_alt: "strip s = lstrip (rstrip s)"
  by (simp add: strip_def lstrip_def rstrip_dropWhile)

lemma strip_snoc_space: "isspace c \<Longrightarrow> strip (s @ [c]) = strip s"
  by (simp add: strip_alt rstrip_snoc)

lemma lstrip_idem: "lstrip (lstrip s) = lstrip s"
  by (simp add: lstrip_def)

lemma rstrip_idem: "rstrip (rstrip s) = rstrip s"
  by (induction s rule: rev_induct) (auto simp: rstrip_snoc)

lemma strip_idem [simp]: "strip (strip s) = strip s"
  by (metis strip_def strip_alt lstrip_idem rstrip_idem)

section \<open>Facts about the front-matter stripper\<close>

lemma fm_scan_none:
  "\<forall>l\<in>set ls. strip l \<noteq> ''---'' \<Longrightarrow> fm_scan i ls b = 0"
  by (induction ls arbitrary: i) auto

lemma fm_scan_open:
  "\<exists>l\<in>set ls. strip l = ''---'' \<Longrightarrow>
   fm_scan i ls True = i + length (takeWhile (\<lambda>l. strip l \<noteq> ''---'') ls) + 1"
proof (induction ls arbitrary: i)
  case Nil
  then show ?case by simp
next
  case (Cons a ls)
  show ?case
  proof (cases "strip a = ''---''")
    case True
    then show ?thesis by simp
  next
    case False
    with Cons.prems have "\<exists>l\<in>set ls. strip l = ''---''" by auto
    from Cons.IH [OF this, of "i + 1"] False show ?thesis by simp
  qed
qed

lemma suffix_join_nl_tl: "suffix (join_nl ls) (join_nl (l # ls))"
  by (cases ls) (auto simp: suffix_def)

lemma suffix_join_nl_drop: "suffix (join_nl (drop n ls)) (join_nl ls)"
proof (induction ls arbitrary: n)
  case Nil
  show ?case by simp
next
  case (Cons l ls)
  show ?case
  proof (cases n)
    case 0
    then show ?thesis by simp
  next
    case (Suc k)
    have "suffix (join_nl (drop k ls)) (join_nl ls)" by (rule Cons.IH)
    also have "suffix (join_nl ls) (join_nl (l # ls))" by (rule suffix_join_nl_tl)
    finally show ?thesis using Suc by simp
  qed
qed

lemma length_join_nl_Cons: "length l + length (join_nl ls) \<le> length (join_nl (l # ls))"
  by (cases ls) auto

lemma startswith_hd_line:
  assumes "startswith s ''---''"
  shows "startswith (hd (split_nl s)) ''---''"
proof -
  from assms obtain r where s: "s = ''---'' @ r"
    by (metis append_take_drop_id startswith_def)
  show ?thesis unfolding s by (cases "split_nl r") (auto simp: startswith_def)
qed

lemma remove_front_matter_found:
  assumes sw: "startswith s ''---''"
    and first: "strip (hd (split_nl s)) = ''---''"
    and later: "\<exists>l\<in>set (tl (split_nl s)). strip l = ''---''"
  shows "remove_front_matter s =
           join_nl (tl (dropWhile (\<lambda>l. strip l \<noteq> ''---'') (tl (split_nl s))))"
    and "strict_suffix (remove_front_matter s) s"
proof -
  obtain l0 rest where lr: "split_nl s = l0 # rest" by (cases "split_nl s") auto
  let ?P = "\<lambda>l. strip l \<noteq> ''---''"
  let ?k = "length (takeWhile ?P rest)"
  from first later lr have scan: "fm_scan 0 (split_nl s) False = ?k + 2"
    by (simp add: fm_scan_open)
  have "drop (?k + 2) (l0 # rest) = tl (drop ?k rest)"
    by (simp add: drop_Suc tl_drop)
  also have "\<dots> = tl (dropWhile ?P rest)" by (simp add: dropWhile_eq_drop)
  finally have d: "drop (?k + 2) (split_nl s) = tl (dropWhile ?P (tl (split_nl s)))"
    by (simp add: lr)
  from sw scan d show r: "remove_front_matter s = join_nl (tl (dropWhile ?P (tl (split_nl s))))"
    by (simp add: remove_front_matter_def Let_def)
  have "suffix (join_nl (drop (?k + 2) (split_nl s))) (join_nl (split_nl s))"
    by (rule suffix_join_nl_drop)
  then have suf: "suffix (remove_front_matter s) s" using r d by simp
  have "suffix (join_nl (drop (?k + 1) rest)) (join_nl rest)" by (rule suffix_join_nl_drop)
  then have "length (join_nl (drop (?k + 1) rest)) \<le> length (join_nl rest)"
    by (rule suffix_length_le)
  moreover have "length l0 + length (join_nl rest) \<le> length (join_nl (l0 # rest))"
    by (rule length_join_nl_Cons)
  moreover have "l0 \<noteq> []" using first lr by auto
  moreover have "join_nl (l0 # rest) = s" using lr join_split_nl [of s] by simp
  moreover have "remove_front_matter s = join_nl (drop (?k + 1) rest)"
    using r d lr by simp
  ultimately have "length (remove_front_matter s) < length s" by (cases l0) auto
  with suf show "strict_suffix (remove_front_matter s) s"
    by (auto simp: strict_suffix_def)
qed

lemma remove_front_matter_unterminated:
  assumes "\<forall>l\<in>set (tl (split_nl s)). strip l \<noteq> ''---''"
  shows "remove_front_matter s = s"
proof -
  obtain l0 rest where lr: "split_nl s = l0 # rest" by (cases "split_nl s") auto
  with assms have "fm_scan 1 rest b = 0" for b by (simp add: fm_scan_none)
  then have "fm_scan 0 (split_nl s) False = 0" by (simp add: lr)
  then show ?thesis by (simp add: remove_front_matter_def Let_def)
qed

section \<open>Claims about the front-matter stripper\<close>

text \<open>
  Claim C9. A text that begins with the opening delimiter \<^verbatim>\<open>---\<close> and has no later line
  that trims to exactly \<^verbatim>\<open>---\<close> is returned by \<open>remove_front_matter\<close> as it is: an
  unterminated front-matter block is never stripped in part.
\<close>

theorem C9_unterminated_front_matter_unchanged:
  assumes "startswith doc ''---''"
    and "\<forall>l\<in>set (tl (split_nl doc)). strip l \<noteq> ''---''"
  shows "remove_front_matter doc = doc"
  using assms(2) by (rule remove_front_matter_unterminated)

theorem C9_unterminated_front_matter_witness:
  "remove_front_matter ''---\<newline>title: x\<newline>body'' = ''---\<newline>title: x\<newline>body''"
proof -
  have h1: "startswith ''---\<newline>title: x\<newline>body'' ''---''" by code_simp
  have h2: "\<forall>l\<in>set (tl (split_nl ''---\<newline>title: x\<newline>body'')). strip l \<noteq> ''---''"
    by code_simp
  from C9_unterminated_front_matter_unchanged [OF h1 h2] show ?thesis .
qed

text \<open>
  Claim C2, as stated, says that the stripper removes a leading portion exactly when the
  first line is a delimiter line, and leaves every other text unchanged. Two inputs show
  that the code does otherwise: a text whose first line is \<^verbatim>\<open>---\<close> with no closing
  delimiter line is returned unchanged, and a text whose first line only begins with
  \<^verbatim>\<open>---\<close> passes the \<^verbatim>\<open>startswith\<close> guard, after which the two later delimiter
  lines are taken for a front-matter block.
\<close>

theorem C2_front_matter_counterexample:
  "strip (hd (split_nl ''---\<newline>title: x'')) = ''---''
   \<and> remove_front_matter ''---\<newline>title: x'' = ''---\<newline>title: x''
   \<and> strip (hd (split_nl ''---abc\<newline>---\<newline>foo\<newline>---\<newline>body'')) \<noteq> ''---''
   \<and> remove_front_matter ''---abc\<newline>---\<newline>foo\<newline>---\<newline>body'' = ''body''"
  by code_simp

text \<open>
  Claim C2, amended. A text that does not begin with the characters \<^verbatim>\<open>---\<close> is returned
  unchanged. A text whose first line is \<^verbatim>\<open>---\<close> (followed at most by whitespace) loses
  a leading portion exactly when a later line trims to \<^verbatim>\<open>---\<close>: the result is then the
  text after the first such line, a proper suffix of the input; without such a line the
  text is returned unchanged.
\<close>

theorem C2_front_matter_amended:
  "(\<not> startswith doc ''---'' \<longrightarrow> remove_front_matter doc = doc)
   \<and> (startswith doc ''---'' \<and> strip (hd (split_nl doc)) = ''---'' \<longrightarrow>
        (if \<exists>l\<in>set (tl (split_nl doc)). strip l = ''---''
         then remove_front_matter doc =
                join_nl (tl (dropWhile (\<lambda>l. strip l \<noteq> ''---'') (tl (split_nl doc))))
              \<and> strict_suffix (remove_front_matter doc) doc
         else remove_front_matter doc = doc))"
proof (intro conjI impI)
  assume "\<not> startswith doc ''---''"
  then show "remove_front_matter doc = doc" by (simp add: remove_front_matter_def)
next
  assume a: "startswith doc ''---'' \<and> strip (hd (split_nl doc)) = ''---''"
  show "if \<exists>l\<in>set (tl (split_nl doc)). strip l = ''---''
        then remove_front_matter doc =
               join_nl (tl (dropWhile (\<lambda>l. strip l \<noteq> ''---'') (tl (split_nl doc))))
             \<and> strict_suffix (remove_front_matter doc) doc
        else remove_front_matter doc = doc"
  proof (cases "\<exists>l\<in>set (tl (split_nl doc)). strip l = ''---''")
    case True
    with a remove_front_matter_found [of doc] show ?thesis by simp
  next
    case False
    with remove_front_matter_unterminated [of doc] show ?thesis by simp
  qed
qed

theorem C2_front_matter_amended_witness:
  "remove_front_matter ''---\<newline>title: x\<newline>---\<newline>body'' = ''body''
   \<and> strict_suffix ''body'' ''---\<newline>title: x\<newline>---\<newline>body''
   \<and> remove_front_matter '' ---\<newline>a\<newline>---\<newline>b'' = '' ---\<newline>a\<newline>---\<newline>b''"
proof -
  let ?d = "''---\<newline>title: x\<newline>---\<newline>body''"
  let ?e = "'' ---\<newline>a\<newline>---\<newline>b''"
  have h1: "startswith ?d ''---'' \<and> strip (hd (split_nl ?d)) = ''---''" by code_simp
  have h2: "\<exists>l\<in>set (tl (split_nl ?d)). strip l = ''---''" by code_simp
  have h3: "join_nl (tl (dropWhile (\<lambda>l. strip l \<noteq> ''---'') (tl (split_nl ?d)))) = ''body''"
    by code_simp
  have h4: "\<not> startswith ?e ''---''" by code_simp
  from C2_front_matter_amended [of ?d] h1
  have "if \<exists>l\<in>set (tl (split_nl ?d)). strip l = ''---''
        then remove_front_matter ?d =
               join_nl (tl (dropWhile (\<lambda>l. strip l \<noteq> ''---'') (tl (split_nl ?d))))
             \<and> strict_suffix (remove_front_matter ?d) ?d
        else remove_front_matter ?d = ?d" by blast
  then have "remove_front_matter ?d =
               join_nl (tl (dropWhile (\<lambda>l. strip l \<noteq> ''---'') (tl (split_nl ?d))))
             \<and> strict_suffix (remove_front_matter ?d) ?d" unfolding if_P [OF h2] .
  then have "remove_front_matter ?d = ''body'' \<and> strict_suffix ''body'' ?d"
    by (metis h3)
  moreover from C2_front_matter_amended [of ?e] h4
  have "remove_front_matter ?e = ?e" by blast
  ultimately show ?thesis by blast
qed

section \<open>Facts about the segmenter\<close>

lemma seg_run_Nil [simp]: "seg_run d st [] = st"
  by (simp add: seg_run_def)

lemma seg_run_Cons [simp]: "seg_run d st (l # ls) = seg_run d (seg_step d st l) ls"
  by (simp add: seg_run_def)

lemma seg_run_append: "seg_run d st (ls @ ls') = seg_run d (seg_run d st ls) ls'"
  by (simp add: seg_run_def)

lemma seg_run_snoc: "seg_run d st (ls @ [l]) = seg_step d (seg_run d st ls) l"
  by (simp add: seg_run_def)

lemma seg_step_fence:
  "fence_line l \<Longrightarrow>
   seg_step d st l = st\<lparr>in_code_block := \<not> in_code_block st,
                         current_section := current_section st @ [l]\<rparr>"
  by (simp add: seg_step_def fence_line_def)

lemma seg_step_inside:
  "in_code_block st \<Longrightarrow> \<not> fence_line l \<Longrightarrow>
   seg_step d st l = st\<lparr>current_section := current_section st @ [l]\<rparr>"
  by (simp add: seg_step_def fence_line_def)

lemma seg_step_other:
  "\<not> fence_line l \<Longrightarrow> strip l \<noteq> d \<Longrightarrow>
   seg_step d st l = st\<lparr>current_section := current_section st @ [l]\<rparr>"
  by (simp add: seg_step_def fence_line_def)

lemma seg_step_delimiter:
  "\<not> in_code_block st \<Longrightarrow> \<not> fence_line l \<Longrightarrow> strip l = d \<Longrightarrow>
   seg_step d st l = st\<lparr>sections := save_section (sections st) (current_section st),
                         current_section := []\<rparr>"
  by (simp add: seg_step_def fence_line_def)

lemma in_code_block_seg_step:
  "in_code_block (seg_step d st l) = (if fence_line l then \<not> in_code_block st else in_code_block st)"
  by (simp add: seg_step_def fence_line_def Let_def)

lemma in_code_block_seg_run:
  "in_code_block (seg_run d st ls) =
     (if even (length (filter fence_line ls)) then in_code_block st else \<not> in_code_block st)"
  by (induction ls arbitrary: st) (auto simp: in_code_block_seg_step)

lemma not_fence_dashes: "strip l = ''---'' \<Longrightarrow> \<not> fence_line l"
  by (simp add: fence_line_def startswith_def)

lemma set_line_join_nl: "l \<in> set ls \<Longrightarrow> set l \<subseteq> set (join_nl ls)"
  by (induction ls rule: join_nl.induct) auto

lemma set_split_nl: "l \<in> set (split_nl s) \<Longrightarrow> set l \<subseteq> set s"
  using set_line_join_nl [of l "split_nl s"] by simp

lemma startswith_prefix: "startswith s p \<longleftrightarrow> prefix p s"
  unfolding startswith_def
  by (metis append_eq_conv_conj prefix_def take_is_prefix)

lemma startswith_append: "startswith s p \<longleftrightarrow> (\<exists>r. s = p @ r)"
  by (simp add: startswith_prefix prefix_def)

lemma fence_line_tick: "fence_line l \<Longrightarrow> CHR 0x60 \<in> set l"
proof -
  assume "fence_line l"
  then obtain r where "strip l = ''```'' @ r"
    by (auto simp: fence_line_def startswith_append)
  then have "CHR 0x60 \<in> set (strip l)" by simp
  moreover have "set (strip l) \<subseteq> set l"
    unfolding strip_def rstrip_def lstrip_def
    by (metis set_dropWhileD set_rev subsetI)
  ultimately show ?thesis by blast
qed

lemma strip_space_line: "\<forall>c\<in>set l. isspace c \<Longrightarrow> strip l = []"
  by (simp add: strip_eq_Nil)

lemma seg_run_blank:
  "\<forall>l\<in>set ls. strip l = [] \<Longrightarrow> d \<noteq> [] \<Longrightarrow>
   seg_run d st ls = st\<lparr>current_section := current_section st @ ls\<rparr>"
proof (induction ls arbitrary: st)
  case Nil
  show ?case by simp
next
  case (Cons l ls)
  then have "\<not> fence_line l" and "strip l \<noteq> d"
    by (auto simp: fence_line_def startswith_def)
  then show ?case using Cons by (simp add: seg_step_other)
qed

lemma split_by_delimiter_blank:
  assumes "\<forall>c\<in>set s. isspace c" and "d \<noteq> []"
  shows "split_by_delimiter s d = []"
proof -
  have "\<forall>l\<in>set (split_nl s). strip l = []"
    using assms(1) set_split_nl by (fastforce simp: strip_eq_Nil)
  then have "seg_run d seg_init (split_nl s) = seg_init\<lparr>current_section := split_nl s\<rparr>"
    using assms(2) by (simp add: seg_run_blank seg_init_def)
  moreover have "strip s = []" using assms(1) by (simp add: strip_eq_Nil)
  ultimately show ?thesis
    by (simp add: split_by_delimiter_def save_section_def seg_init_def)
qed

lemma remove_front_matter_blank:
  assumes "\<forall>c\<in>set s. isspace c"
  shows "remove_front_matter s = s"
proof -
  have "\<not> startswith s ''---''"
  proof
    assume "startswith s ''---''"
    then obtain r where "s = ''---'' @ r" by (auto simp: startswith_append)
    then have "CHR ''-'' \<in> set s" by simp
    with assms show False by auto
  qed
  then show ?thesis by (simp add: remove_front_matter_def)
qed

lemma create_notebook_map: "create_notebook cells = map notebook_cell cells"
proof -
  have "foldl (\<lambda>nb c. nb @ [notebook_cell c]) acc cells = acc @ map notebook_cell cells" for acc
    by (induction cells arbitrary: acc) auto
  then show ?thesis by (simp add: create_notebook_def)
qed

section \<open>Claims about the segmenter, the pipeline and the assembler\<close>

text \<open>
  Claim C1. A line that trims to the delimiter \<^verbatim>\<open>---\<close> and comes after an odd number of
  fence lines (so it lies between an opening fence line and its closing fence line) never
  ends a section: the list of saved sections is the same before and after the line, the
  line is appended to the current section, and the segmenter stays inside the fence. In
  particular the text of the lines \<^verbatim>\<open># Title\<close>, \<^verbatim>\<open>```python\<close>, \<^verbatim>\<open>x = 1\<close>, \<^verbatim>\<open>---\<close>,
  \<^verbatim>\<open>y = 2\<close>, \<^verbatim>\<open>```\<close> is one section, and the extractor yields from it the prose block
  \<^verbatim>\<open># Title\<close> and exactly one code block, whose content is \<^verbatim>\<open>x = 1\n---\ny = 2\<close>.
\<close>

theorem C1_delimiter_inside_fence:
  "(odd (length (filter fence_line pre)) \<and> strip line = ''---'' \<longrightarrow>
      sections (seg_run ''---'' seg_init (pre @ [line])) = sections (seg_run ''---'' seg_init pre)
      \<and> current_section (seg_run ''---'' seg_init (pre @ [line]))
          = current_section (seg_run ''---'' seg_init pre) @ [line]
      \<and> in_code_block (seg_run ''---'' seg_init (pre @ [line])))
   \<and> split_by_delimiter ''# Title\<newline>```python\<newline>x = 1\<newline>---\<newline>y = 2\<newline>```'' ''---''
       = [''# Title\<newline>```python\<newline>x = 1\<newline>---\<newline>y = 2\<newline>```'']
   \<and> extract_cells_from_section ''# Title\<newline>```python\<newline>x = 1\<newline>---\<newline>y = 2\<newline>```''
         DEFAULT_CODE_LANGUAGES
       = [markdown_cell ''# Title'', code_cell ''x = 1\<newline>---\<newline>y = 2'' ''python'']
   \<and> filter (\<lambda>c. ctype c = Code)
         (extract_cells_from_section ''# Title\<newline>```python\<newline>x = 1\<newline>---\<newline>y = 2\<newline>```''
            DEFAULT_CODE_LANGUAGES)
       = [code_cell ''x = 1\<newline>---\<newline>y = 2'' ''python'']"
proof (intro conjI impI)
  assume a: "odd (length (filter fence_line pre)) \<and> strip line = ''---''"
  let ?st = "seg_run ''---'' seg_init pre"
  from a have inside: "in_code_block ?st"
    by (simp add: in_code_block_seg_run seg_init_def)
  from a have nf: "\<not> fence_line line" by (simp add: not_fence_dashes)
  have step: "seg_run ''---'' seg_init (pre @ [line])
                = ?st\<lparr>current_section := current_section ?st @ [line]\<rparr>"
    by (simp add: seg_run_snoc seg_step_inside [OF inside nf])
  show "sections (seg_run ''---'' seg_init (pre @ [line])) = sections ?st"
    by (simp add: step)
  show "current_section (seg_run ''---'' seg_init (pre @ [line])) = current_section ?st @ [line]"
    by (simp add: step)
  show "in_code_block (seg_run ''---'' seg_init (pre @ [line]))"
    using inside by (simp add: step)
next
  show "split_by_delimiter ''# Title\<newline>```python\<newline>x = 1\<newline>---\<newline>y = 2\<newline>```'' ''---''
       = [''# Title\<newline>```python\<newline>x = 1\<newline>---\<newline>y = 2\<newline>```'']"
    by code_simp
next
  show "extract_cells_from_section ''# Title\<newline>```python\<newline>x = 1\<newline>---\<newline>y = 2\<newline>```''
         DEFAULT_CODE_LANGUAGES
       = [markdown_cell ''# Title'', code_cell ''x = 1\<newline>---\<newline>y = 2'' ''python'']"
    by code_simp
next
  show "filter (\<lambda>c. ctype c = Code)
         (extract_cells_from_section ''# Title\<newline>```python\<newline>x = 1\<newline>---\<newline>y = 2\<newline>```''
            DEFAULT_CODE_LANGUAGES)
       = [code_cell ''x = 1\<newline>---\<newline>y = 2'' ''python'']"
    by code_simp
qed

theorem C1_delimiter_inside_fence_witness:
  "sections (seg_run ''---'' seg_init [''a'', ''---'', ''```python'', ''x = 1'', ''---'']) = [''a'']
   \<and> current_section (seg_run ''---'' seg_init [''a'', ''---'', ''```python'', ''x = 1'', ''---''])
       = [''```python'', ''x = 1'', ''---'']"
proof -
  let ?pre = "[''a'', ''---'', ''```python'', ''x = 1'']"
  have h: "odd (length (filter fence_line ?pre)) \<and> strip ''---'' = ''---''" by code_simp
  have s: "sections (seg_run ''---'' seg_init ?pre) = [''a'']" by code_simp
  have c: "current_section (seg_run ''---'' seg_init ?pre) = [''```python'', ''x = 1'']"
    by code_simp
  from C1_delimiter_inside_fence [of ?pre "''---''"] h
  have "sections (seg_run ''---'' seg_init (?pre @ [''---''])) = sections (seg_run ''---'' seg_init ?pre)
      \<and> current_section (seg_run ''---'' seg_init (?pre @ [''---'']))
          = current_section (seg_run ''---'' seg_init ?pre) @ [''---'']" by blast
  then show ?thesis unfolding s c by simp
qed

text \<open>
  Claim C5. Every block returned by \<open>parse_markdown\<close> has a content that is not empty
  after trimming, for every text and every allow set (given or defaulted); a text made
  of whitespace only yields the empty list of blocks.
\<close>

theorem C5_no_empty_blocks:
  "(\<forall>c\<in>set (parse_markdown doc langs). strip (content c) \<noteq> [])
   \<and> ((\<forall>ch\<in>set doc. isspace ch) \<longrightarrow> parse_markdown doc langs = [])"
proof
  show "\<forall>c\<in>set (parse_markdown doc langs). strip (content c) \<noteq> []"
    by (simp add: parse_markdown_def Let_def)
next
  show "(\<forall>ch\<in>set doc. isspace ch) \<longrightarrow> parse_markdown doc langs = []"
  proof
    assume a: "\<forall>ch\<in>set doc. isspace ch"
    then have "split_by_delimiter (remove_front_matter doc) ''---'' = []"
      by (simp add: remove_front_matter_blank split_by_delimiter_blank)
    then show "parse_markdown doc langs = []"
      by (simp add: parse_markdown_def Let_def)
  qed
qed

theorem C5_no_empty_blocks_witness:
  "parse_markdown '' \<newline>   \<newline> '' None = []
   \<and> list_all (\<lambda>c. strip (content c) \<noteq> [])
        (parse_markdown ''intro\<newline>---\<newline>  \<newline>---\<newline>```python\<newline>\<newline>```\<newline>'' None)"
proof -
  have h: "\<forall>ch\<in>set '' \<newline>   \<newline> ''. isspace ch" by code_simp
  from C5_no_empty_blocks [of "'' \<newline>   \<newline> ''" None] h
  have "parse_markdown '' \<newline>   \<newline> '' None = []" by blast
  moreover from C5_no_empty_blocks
    [of "''intro\<newline>---\<newline>  \<newline>---\<newline>```python\<newline>\<newline>```\<newline>''" None]
  have "list_all (\<lambda>c. strip (content c) \<noteq> [])
        (parse_markdown ''intro\<newline>---\<newline>  \<newline>---\<newline>```python\<newline>\<newline>```\<newline>'' None)"
    unfolding list_all_iff by blast
  ultimately show ?thesis by blast
qed

text \<open>
  Claim C6, as stated, asks for \<^verbatim>\<open>language\<close> metadata on every code block whose language
  differs from \<^verbatim>\<open>python\<close>. The test in \<open>create_notebook\<close> is
  \<^verbatim>\<open>cell.get('language') and cell['language'] != 'python'\<close>, so a code block whose
  language is the empty string gets none. Such a block is produced by the pipeline
  itself from an untagged fence when the allow set contains the empty tag.
\<close>

theorem C6_language_metadata_counterexample:
  "parse_markdown ''```\<newline>x\<newline>```'' (Some {''''}) = [code_cell ''x'' '''']
   \<and> ctype (code_cell ''x'' '''') = Code
   \<and> language (code_cell ''x'' '''') \<noteq> Some ''python''
   \<and> map (\<lambda>c. metadata c ''language'') (create_notebook [code_cell ''x'' '''']) = [None]"
  by code_simp

text \<open>
  Claim C6, amended. The assembler makes one cell per block, in order. A code block
  whose language is present, not empty and different from \<^verbatim>\<open>python\<close> becomes a code cell
  with that language under the metadata key \<^verbatim>\<open>language\<close>; a code block whose language is
  \<^verbatim>\<open>python\<close>, empty or absent becomes a code cell without that key.
\<close>

theorem C6_language_metadata_amended:
  "length (create_notebook cells) = length cells
   \<and> (\<forall>i<length cells. ctype (cells ! i) = Code \<longrightarrow>
        cell_type (create_notebook cells ! i) = Code
        \<and> source (create_notebook cells ! i) = content (cells ! i)
        \<and> metadata (create_notebook cells ! i) ''language''
            = (case language (cells ! i) of
                 Some l \<Rightarrow> if l \<noteq> [] \<and> l \<noteq> ''python'' then Some l else None
               | None \<Rightarrow> None))"
  by (auto simp: create_notebook_map notebook_cell_def new_code_cell_def Let_def
           split: option.splits)

theorem C6_language_metadata_amended_witness:
  "map (\<lambda>c. metadata c ''language'')
     (create_notebook [code_cell ''select 1'' ''sql'', markdown_cell ''t'', code_cell ''x = 1'' ''python''])
   ! 0 = Some ''sql''
   \<and> map (\<lambda>c. metadata c ''language'')
     (create_notebook [code_cell ''select 1'' ''sql'', markdown_cell ''t'', code_cell ''x = 1'' ''python''])
   ! 2 = None"
proof -
  let ?cs = "[code_cell ''select 1'' ''sql'', markdown_cell ''t'', code_cell ''x = 1'' ''python'']"
  have l: "length (create_notebook ?cs) = 3"
    using C6_language_metadata_amended [of ?cs] by simp
  have a: "metadata (create_notebook ?cs ! 0) ''language'' = Some ''sql''"
    using C6_language_metadata_amended [of ?cs] by (simp add: code_cell_def)
  have "(2::nat) < length ?cs \<and> ctype (?cs ! 2) = Code" by (simp add: code_cell_def)
  with C6_language_metadata_amended [of ?cs]
  have "metadata (create_notebook ?cs ! 2) ''language''
            = (case language (?cs ! 2) of
                 Some l \<Rightarrow> if l \<noteq> [] \<and> l \<noteq> ''python'' then Some l else None
               | None \<Rightarrow> None)" by blast
  then have b: "metadata (create_notebook ?cs ! 2) ''language'' = None"
    by (simp add: code_cell_def)
  from l a b show ?thesis by simp
qed

section \<open>Facts about the pattern matches\<close>

lemma find_close_props:
  "find_close s q = Some r \<Longrightarrow> at_bol s r \<and> ticks_at s r \<and> at_eol s (r + 3)"
proof (induction s q rule: find_close.induct)
  case (1 s q)
  then show ?case
    by (subst (asm) (2) find_close.simps) (fastforce split: if_splits)
qed

lemma match_at_props:
  assumes "match_at s p = Some m"
  shows "at_bol s p" and "ticks_at s p" and "ticks_at s (m_end m - 3)"
    and "at_eol s (m_end m)"
    and "group1 m = takeWhile isword (drop (p + 3) s)"
proof -
  let ?nl = "p + 3 + length (takeWhile isword (drop (p + 3) s))"
  from assms obtain q where
    q: "find_close s (?nl + 1) = Some q"
    and m: "m_end m = q + 3" "group1 m = takeWhile isword (drop (p + 3) s)"
    and b: "at_bol s p" "ticks_at s p"
    by (auto simp: match_at_def Let_def split: if_splits option.splits)
  from find_close_props [OF q] m b
  show "at_bol s p" and "ticks_at s p" and "ticks_at s (m_end m - 3)"
    and "at_eol s (m_end m)" and "group1 m = takeWhile isword (drop (p + 3) s)"
    by simp_all
qed

lemma finditer_from_props:
  "m \<in> set (finditer_from s p) \<Longrightarrow> p \<le> m_start m \<and> match_at s (m_start m) = Some m"
proof (induction s p rule: finditer_from.induct)
  case (1 s p)
  show ?case
  proof (cases "match_at s p")
    case None
    with "1.prems" have "m \<in> set (finditer_from s (p + 1))" and "\<not> length s < p"
      by (subst (asm) finditer_from.simps, simp split: if_splits)+
    with "1.IH"(1) None show ?thesis by fastforce
  next
    case (Some m')
    with "1.prems" have mem: "m = m' \<or> m \<in> set (finditer_from s (m_end m'))"
      and len: "\<not> length s < p"
      by (subst (asm) finditer_from.simps, simp split: if_splits)+
    from mem show ?thesis
    proof
      assume "m = m'"
      with Some match_at_bounds(1) [OF Some] show ?thesis by simp
    next
      assume "m \<in> set (finditer_from s (m_end m'))"
      with "1.IH"(2) [OF len Some] match_at_bounds(2) [OF Some] show ?thesis by simp
    qed
  qed
qed

lemma finditer_from_sorted:
  "sorted_wrt (\<lambda>m m'. m_end m \<le> m_start m') (finditer_from s p)"
proof (induction s p rule: finditer_from.induct)
  case (1 s p)
  show ?case
  proof (cases "length s < p")
    case True
    then show ?thesis by (subst finditer_from.simps) simp
  next
    case len: False
    show ?thesis
    proof (cases "match_at s p")
      case None
      with len "1.IH"(1) show ?thesis by (subst finditer_from.simps) simp
    next
      case (Some m')
      have "\<forall>m\<in>set (finditer_from s (m_end m')). m_end m' \<le> m_start m"
        using finditer_from_props by blast
      with len Some "1.IH"(2) show ?thesis by (subst finditer_from.simps) simp
    qed
  qed
qed

lemma finditer_props:
  assumes "m \<in> set (finditer s)"
  shows "match_at s (m_start m) = Some m" and "at_bol s (m_start m)"
    and "ticks_at s (m_start m)" and "m_start m + 7 \<le> m_end m" and "m_end m \<le> length s"
    and "ticks_at s (m_end m - 3)"
proof -
  from assms show a: "match_at s (m_start m) = Some m"
    by (simp add: finditer_def finditer_from_props)
  from match_at_props [OF a] match_at_bounds [OF a]
  show "at_bol s (m_start m)" and "ticks_at s (m_start m)" and "m_start m + 7 \<le> m_end m"
    and "m_end m \<le> length s" and "ticks_at s (m_end m - 3)"
    by simp_all
qed

lemma finditer_disjoint:
  assumes "m \<in> set (finditer s)" and "m' \<in> set (finditer s)" and "m \<noteq> m'"
  shows "m_end m \<le> m_start m' \<or> m_end m' \<le> m_start m"
proof -
  have "sorted_wrt (\<lambda>m m'. m_end m \<le> m_start m') (finditer s)"
    by (simp add: finditer_def finditer_from_sorted)
  then show ?thesis using assms
    by (induction "finditer s" arbitrary: rule: list.induct) (auto simp: sorted_wrt_iff_nth_less in_set_conv_nth
        intro: linorder_cases)
qed

section \<open>Facts about slices, trimming and the extraction loop\<close>

lemma slice_append: "a \<le> b \<Longrightarrow> b \<le> c \<Longrightarrow> slice s a c = slice s a b @ slice s b c"
proof -
  assume ab: "a \<le> b" and bc: "b \<le> c"
  then have "c - a = (b - a) + (c - b)" by simp
  then have "take (c - a) (drop a s)
               = take (b - a) (drop a s) @ take (c - b) (drop (b - a) (drop a s))"
    by (simp add: take_add)
  moreover have "drop (b - a) (drop a s) = drop b s" using ab by simp
  ultimately show ?thesis by (simp add: slice_def)
qed

lemma slice_nonempty:
  assumes "a < b" and "b \<le> length s"
  shows "slice s a b \<noteq> []" and "hd (slice s a b) = s ! a" and "last (slice s a b) = s ! (b - 1)"
proof -
  from assms show ne: "slice s a b \<noteq> []" by (simp add: slice_def)
  from assms show "hd (slice s a b) = s ! a"
    by (simp add: slice_def hd_drop_conv_nth)
  have len: "length (slice s a b) = b - a" using assms by (simp add: slice_def)
  have "last (slice s a b) = slice s a b ! (b - a - 1)"
    using ne len by (simp add: last_conv_nth)
  also have "\<dots> = s ! (a + (b - a - 1))" using assms by (simp add: slice_def)
  finally show "last (slice s a b) = s ! (b - 1)" using assms by simp
qed

lemma slice_all [simp]: "slice s 0 (length s) = s"
  by (simp add: slice_def)

lemma dropWhile_keeps_middle:
  "y \<noteq> [] \<Longrightarrow> \<not> P (hd y) \<Longrightarrow> \<exists>x'. dropWhile P (x @ y @ z) = x' @ y @ z"
proof (induction x)
  case Nil
  then have "dropWhile P (y @ z) = y @ z" by (cases y) auto
  then show ?case by auto
next
  case (Cons c x)
  then show ?case by (cases "P c") auto
qed

lemma sublist_strip:
  assumes "y \<noteq> []" and "\<not> isspace (hd y)" and "\<not> isspace (last y)"
  shows "sublist y (strip (x @ y @ z))"
proof -
  from dropWhile_keeps_middle [where y = y and P = isspace and x = x and z = z, OF assms(1,2)]
  obtain x' where l: "lstrip (x @ y @ z) = x' @ y @ z" unfolding lstrip_def by blast
  have "rev y \<noteq> []" and "\<not> isspace (hd (rev y))"
    using assms by (simp_all add: hd_rev)
  from dropWhile_keeps_middle [where y = "rev y" and P = isspace and x = "rev z" and z = "rev x'", OF this]
  obtain z' where "dropWhile isspace (rev z @ rev y @ rev x') = z' @ rev y @ rev x'" by blast
  then have "rstrip (x' @ y @ z) = x' @ y @ rev z'" by (simp add: rstrip_def)
  with l have "strip (x @ y @ z) = x' @ y @ rev z'" by (simp add: strip_def)
  then show ?thesis by (auto simp: sublist_def)
qed

lemma sublist_strip_slice:
  assumes "l \<le> a" and "a < b" and "b \<le> r" and "b \<le> length s"
    and "\<not> isspace (s ! a)" and "\<not> isspace (s ! (b - 1))"
  shows "sublist (slice s a b) (strip (slice s l r))"
proof -
  have "slice s l r = slice s l a @ slice s a b @ slice s b r"
    using assms(1-3) slice_append [of l a r s] slice_append [of a b r s] by simp
  moreover have "sublist (slice s a b) (strip (slice s l a @ slice s a b @ slice s b r))"
    using slice_nonempty [OF assms(2,4)] assms(5,6) by (intro sublist_strip) simp_all
  ultimately show ?thesis by simp
qed

lemma extract_loop_mono:
  "extract_loop s langs ms cells le = (cells', le') \<Longrightarrow> set cells \<subseteq> set cells'"
proof (induction ms arbitrary: cells le)
  case Nil
  then show ?case by simp
next
  case (Cons m ms)
  show ?case
  proof (cases "lower (group1 m) \<in> langs")
    case True
    let ?before = "strip (slice s le (m_start m))"
    let ?c1 = "if ?before \<noteq> [] then cells @ [markdown_cell ?before] else cells"
    let ?c2 = "?c1 @ [code_cell (rstrip (group2 m)) (lower (group1 m))]"
    from Cons.prems True have "extract_loop s langs ms ?c2 (m_end m) = (cells', le')"
      by (simp add: Let_def)
    from Cons.IH [OF this] show ?thesis by auto
  next
    case False
    with Cons show ?thesis by simp
  qed
qed

lemma in_prose_mono: "in_prose t cells \<Longrightarrow> set cells \<subseteq> set cells' \<Longrightarrow> in_prose t cells'"
  by (auto simp: in_prose_def)

lemma extract_loop_keeps_span:
  assumes "le \<le> a" and "a < b" and "b \<le> length s"
    and "\<not> isspace (s ! a)" and "\<not> isspace (s ! (b - 1))"
    and "\<forall>m\<in>set ms. lower (group1 m) \<in> langs \<longrightarrow> b \<le> m_start m \<or> m_end m \<le> a"
    and "extract_loop s langs ms cells le = (cells', le')"
  shows "in_prose (slice s a b) cells' \<or> le' \<le> a"
  using assms(1,6,7)
proof (induction ms arbitrary: cells le)
  case Nil
  then show ?case by simp
next
  case (Cons m ms)
  show ?case
  proof (cases "lower (group1 m) \<in> langs")
    case False
    with Cons.prems have "extract_loop s langs ms cells le = (cells', le')" by simp
    from Cons.IH [OF Cons.prems(1) _ this] Cons.prems(2) show ?thesis by simp
  next
    case True
    let ?before = "strip (slice s le (m_start m))"
    let ?c1 = "if ?before \<noteq> [] then cells @ [markdown_cell ?before] else cells"
    let ?c2 = "?c1 @ [code_cell (rstrip (group2 m)) (lower (group1 m))]"
    from Cons.prems True have run: "extract_loop s langs ms ?c2 (m_end m) = (cells', le')"
      by (simp add: Let_def)
    from Cons.prems(2) True have "b \<le> m_start m \<or> m_end m \<le> a" by simp
    then show ?thesis
    proof
      assume "m_end m \<le> a"
      from Cons.IH [OF this _ run] Cons.prems(2) show ?thesis by simp
    next
      assume bm: "b \<le> m_start m"
      have sub: "sublist (slice s a b) ?before"
        using Cons.prems(1) assms(2) bm assms(3,4,5) by (rule sublist_strip_slice)
      moreover have "slice s a b \<noteq> []" using slice_nonempty(1) [OF assms(2,3)] .
      ultimately have "?before \<noteq> []" by auto
      with sub have "in_prose (slice s a b) ?c2"
        by (auto simp: in_prose_def markdown_cell_def)
      with extract_loop_mono [OF run] show ?thesis by (blast intro: in_prose_mono)
    qed
  qed
qed

lemma extract_cells_keeps_span:
  assumes "a < b" and "b \<le> length s"
    and "\<not> isspace (s ! a)" and "\<not> isspace (s ! (b - 1))"
    and "\<forall>m\<in>set (finditer s). lower (group1 m) \<in> langs \<longrightarrow> b \<le> m_start m \<or> m_end m \<le> a"
  shows "in_prose (slice s a b) (extract_cells_from_section s langs)"
proof -
  obtain cells le where run: "extract_loop s langs (finditer s) [] 0 = (cells, le)"
    by (cases "extract_loop s langs (finditer s) [] 0") auto
  let ?after = "strip (slice s le (length s))"
  have res: "extract_cells_from_section s langs
               = (if ?after \<noteq> [] then cells @ [markdown_cell ?after] else cells)"
    by (simp add: extract_cells_from_section_def run Let_def)
  from extract_loop_keeps_span [OF _ assms(1,2,3,4,5) run]
  have "in_prose (slice s a b) cells \<or> le \<le> a" by simp
  then show ?thesis
  proof
    assume "in_prose (slice s a b) cells"
    then show ?thesis unfolding res by (rule in_prose_mono) auto
  next
    assume "le \<le> a"
    then have sub: "sublist (slice s a b) ?after"
      using assms(1) assms(2) assms(2,3,4) by (rule sublist_strip_slice)
    moreover have "slice s a b \<noteq> []" using slice_nonempty(1) [OF assms(1,2)] .
    ultimately have "?after \<noteq> []" by auto
    with sub show ?thesis unfolding res by (auto simp: in_prose_def markdown_cell_def)
  qed
qed

section \<open>More facts about matches and the extraction loop\<close>

lemma split_nl_append_nl:
  "split_nl (a @ CHR 0x0A # b) = split_nl a @ split_nl b"
proof (induction a)
  case Nil
  show ?case by simp
next
  case (Cons c a)
  obtain l ls where "split_nl a = l # ls" by (cases "split_nl a") auto
  with Cons show ?case by simp
qed

lemma ticks_at_nth:
  assumes "ticks_at s p"
  shows "p + 3 \<le> length s" and "s ! p = CHR 0x60" and "s ! (p + 2) = CHR 0x60"
    and "startswith (drop p s) ''```''"
proof -
  from assms show sw: "startswith (drop p s) ''```''"
    by (simp add: startswith_def ticks_at_def slice_def numeral_3_eq_3)
  then obtain r where r: "drop p s = ''```'' @ r" by (auto simp: startswith_append)
  then have "length (drop p s) = 3 + length r" by simp
  then show len: "p + 3 \<le> length s" by simp
  have "drop p s ! 0 = s ! (p + 0)" and "drop p s ! 2 = s ! (p + 2)"
    using len by (simp_all del: One_nat_def)
  with r show "s ! p = CHR 0x60" and "s ! (p + 2) = CHR 0x60" by simp_all
qed

lemma match_at_not_bol: "\<not> at_bol s p \<Longrightarrow> match_at s p = None"
  by (simp add: match_at_def)

lemma hd_split_nl_startswith:
  "startswith s p \<Longrightarrow> CHR 0x0A \<notin> set p \<Longrightarrow> startswith (hd (split_nl s)) p"
proof (induction p arbitrary: s)
  case Nil
  show ?case by (simp add: startswith_def)
next
  case (Cons c p)
  from Cons.prems obtain r where s: "s = c # (p @ r)" by (auto simp: startswith_append)
  then have "startswith (p @ r) p" by (auto simp: startswith_append)
  with Cons have "startswith (hd (split_nl (p @ r))) p" by simp
  moreover obtain l ls where "split_nl (p @ r) = l # ls" by (cases "split_nl (p @ r)") auto
  ultimately show ?case using Cons.prems(2) s by (auto simp: startswith_append)
qed

lemma bol_ticks_line:
  assumes "at_bol s p" and "ticks_at s p"
  shows "\<exists>l\<in>set (split_nl s). startswith l ''```''"
proof -
  from ticks_at_nth [OF assms(2)] have len: "p + 3 \<le> length s"
    and sw: "startswith (drop p s) ''```''" by simp_all
  from sw have h: "startswith (hd (split_nl (drop p s))) ''```''"
    by (rule hd_split_nl_startswith) simp
  have hdin: "hd (split_nl (drop p s)) \<in> set (split_nl (drop p s))" by simp
  show ?thesis
  proof (cases "p = 0")
    case True
    with h hdin show ?thesis by auto
  next
    case False
    with assms(1) have nl: "s ! (p - 1) = CHR 0x0A" by (simp add: at_bol_def)
    have "s = take (p - 1) s @ s ! (p - 1) # drop p s"
      using False len id_take_nth_drop [of "p - 1" s] by simp
    with nl have "split_nl s = split_nl (take (p - 1) s) @ split_nl (drop p s)"
      by (metis split_nl_append_nl)
    with h hdin show ?thesis by auto
  qed
qed

lemma finditer_from_none:
  "\<forall>q\<ge>p. \<not> (at_bol s q \<and> ticks_at s q) \<Longrightarrow> finditer_from s p = []"
proof (induction s p rule: finditer_from.induct)
  case (1 s p)
  from "1.prems" have "\<not> (at_bol s p \<and> ticks_at s p)" by blast
  then have "match_at s p = None" by (auto simp: match_at_def)
  moreover from "1.prems" have "\<forall>q\<ge>p + 1. \<not> (at_bol s q \<and> ticks_at s q)" by simp
  ultimately show ?case using "1.IH"(1)
    by (subst finditer_from.simps) simp
qed

lemma finditer_no_fence_lines:
  "\<forall>l\<in>set (split_nl s). \<not> startswith l ''```'' \<Longrightarrow> finditer s = []"
  unfolding finditer_def using bol_ticks_line by (intro finditer_from_none) blast

lemma extract_loop_code_blocks:
  "extract_loop s langs ms cells le = (cells', le') \<Longrightarrow>
   filter (\<lambda>c. ctype c = Code) cells'
     = filter (\<lambda>c. ctype c = Code) cells
       @ map (\<lambda>m. code_cell (rstrip (group2 m)) (lower (group1 m)))
           (filter (\<lambda>m. lower (group1 m) \<in> langs) ms)"
proof (induction ms arbitrary: cells le)
  case Nil
  then show ?case by simp
next
  case (Cons m ms)
  show ?case
  proof (cases "lower (group1 m) \<in> langs")
    case True
    let ?before = "strip (slice s le (m_start m))"
    let ?c1 = "if ?before \<noteq> [] then cells @ [markdown_cell ?before] else cells"
    let ?c2 = "?c1 @ [code_cell (rstrip (group2 m)) (lower (group1 m))]"
    from Cons.prems True have "extract_loop s langs ms ?c2 (m_end m) = (cells', le')"
      by (simp add: Let_def)
    from Cons.IH [OF this] True show ?thesis
      by (simp add: markdown_cell_def code_cell_def)
  next
    case False
    with Cons show ?thesis by simp
  qed
qed

lemma extract_cells_code_blocks:
  "filter (\<lambda>c. ctype c = Code) (extract_cells_from_section s langs)
     = map (\<lambda>m. code_cell (rstrip (group2 m)) (lower (group1 m)))
         (filter (\<lambda>m. lower (group1 m) \<in> langs) (finditer s))"
proof -
  obtain cells le where run: "extract_loop s langs (finditer s) [] 0 = (cells, le)"
    by (cases "extract_loop s langs (finditer s) [] 0") auto
  from extract_loop_code_blocks [OF run] show ?thesis
    by (simp add: extract_cells_from_section_def run Let_def markdown_cell_def)
qed

lemma rstrip_keeps_prefix:
  assumes "y \<noteq> []" and "\<not> isspace (last y)"
  shows "\<exists>z'. rstrip (y @ z) = y @ z'"
proof -
  have "rev y \<noteq> []" and "\<not> isspace (hd (rev y))" using assms by (simp_all add: hd_rev)
  from dropWhile_keeps_middle [where y = "rev y" and P = isspace and x = "rev z" and z = "[]", OF this]
  obtain x' where "dropWhile isspace (rev z @ rev y) = x' @ rev y" by auto
  then have "rstrip (y @ z) = y @ rev x'" by (simp add: rstrip_def)
  then show ?thesis by blast
qed

lemma fence_line_indented:
  assumes "\<forall>c\<in>set ws. isspace c"
  shows "fence_line (ws @ ''```'' @ rest)"
proof -
  have "lstrip (ws @ ''```'' @ rest) = ''```'' @ rest"
    using assms by (simp add: lstrip_def dropWhile_append2)
  moreover obtain z' where "rstrip (''```'' @ rest) = ''```'' @ z'"
    using rstrip_keeps_prefix [of "''```''" rest] by auto
  ultimately show ?thesis
    by (auto simp: fence_line_def strip_def startswith_append)
qed

section \<open>Claims about the section cell extractor\<close>

text \<open>
  Claim C3, as stated, speaks of every fenced code block whose tag is not in the allow
  set, a fence with no tag included. Two kinds of fence escape it. An untagged fence has
  the empty tag, and the empty string can be a member of the allow set: the fence is then
  emitted as a code block. A fence whose tag holds a character that is not a word
  character, such as \<^verbatim>\<open>c++\<close>, is no match of the pattern \<^verbatim>\<open>^```(\w*)\n\<close>: its closing
  fence line can then open a match of its own, and what follows is emitted as a code
  block while the text of the fence is cut in the prose.
\<close>

theorem C3_unlisted_language_counterexample:
  "extract_cells_from_section ''```\<newline>plain\<newline>```'' {''python'', ''sql'', ''''}
     = [code_cell ''plain'' '''']
   \<and> extract_cells_from_section ''```c++\<newline>a\<newline>```\<newline>b\<newline>```\<newline>tail'' {''''}
     = [markdown_cell ''```c++\<newline>a'', code_cell ''b'' '''', markdown_cell ''tail'']
   \<and> \<not> in_prose ''```c++\<newline>a\<newline>```''
         (extract_cells_from_section ''```c++\<newline>a\<newline>```\<newline>b\<newline>```\<newline>tail'' {''''})
   \<and> extract_cells_from_section ''```c++\<newline>a\<newline>```python\<newline>b\<newline>```'' DEFAULT_CODE_LANGUAGES
     = [markdown_cell ''```c++\<newline>a'', code_cell ''b'' ''python'']"
proof -
  have a: "extract_cells_from_section ''```\<newline>plain\<newline>```'' {''python'', ''sql'', ''''}
     = [code_cell ''plain'' '''']" by code_simp
  have b: "extract_cells_from_section ''```c++\<newline>a\<newline>```\<newline>b\<newline>```\<newline>tail'' {''''}
     = [markdown_cell ''```c++\<newline>a'', code_cell ''b'' '''', markdown_cell ''tail'']"
    by code_simp
  have c: "extract_cells_from_section ''```c++\<newline>a\<newline>```python\<newline>b\<newline>```'' DEFAULT_CODE_LANGUAGES
     = [markdown_cell ''```c++\<newline>a'', code_cell ''b'' ''python'']" by code_simp
  have "\<not> sublist ''```c++\<newline>a\<newline>```'' t" if "length t < 12" for t :: string
    using that sublist_length_le [of "''```c++\<newline>a\<newline>```''" t] by auto
  then have n: "\<not> in_prose ''```c++\<newline>a\<newline>```''
         (extract_cells_from_section ''```c++\<newline>a\<newline>```\<newline>b\<newline>```\<newline>tail'' {''''})"
    unfolding b by (simp add: in_prose_def markdown_cell_def code_cell_def)
  from a b n c show ?thesis by blast
qed

text \<open>
  Claim C3, amended. The fenced code blocks the extractor recognises are the matches of
  its pattern (an opening line of three backticks and a tag of word characters only, a
  closing line of exactly three backticks), found from left to right without overlap
  (\<open>finditer\<close>). For every section and every allow set, the code blocks of the output
  are exactly those of the matches whose lower-cased tag is in the allow set. So a match
  \<open>m\<close> whose lower-cased tag is not in the allow set gives no code block: no code block
  of the output carries its language, and its whole text, from the opening backticks to
  the closing backticks, is a contiguous part of a prose block. An untagged fence has the
  empty tag and is covered when the allow set does not contain the empty string.
\<close>

theorem C3_unlisted_language_stays_prose:
  assumes "m \<in> set (finditer section)" and "lower (group1 m) \<notin> code_languages"
  shows "filter (\<lambda>c. ctype c = Code) (extract_cells_from_section section code_languages)
           = map (\<lambda>m. code_cell (rstrip (group2 m)) (lower (group1 m)))
               (filter (\<lambda>m. lower (group1 m) \<in> code_languages) (finditer section))
         \<and> (\<forall>c\<in>set (extract_cells_from_section section code_languages).
               ctype c = Code \<longrightarrow> language c \<noteq> Some (lower (group1 m)))
         \<and> in_prose (slice section (m_start m) (m_end m))
               (extract_cells_from_section section code_languages)
         \<and> prefix ''```'' (slice section (m_start m) (m_end m))
         \<and> suffix ''```'' (slice section (m_start m) (m_end m))"
proof (intro conjI)
  let ?out = "extract_cells_from_section section code_languages"
  let ?a = "m_start m" and ?b = "m_end m"
  note p = finditer_props [OF assms(1)]
  note t1 = ticks_at_nth [OF p(3)]
  note t2 = ticks_at_nth [OF p(6)]
  show codes: "filter (\<lambda>c. ctype c = Code) ?out
           = map (\<lambda>m. code_cell (rstrip (group2 m)) (lower (group1 m)))
               (filter (\<lambda>m. lower (group1 m) \<in> code_languages) (finditer section))"
    by (rule extract_cells_code_blocks)
  show "\<forall>c\<in>set ?out. ctype c = Code \<longrightarrow> language c \<noteq> Some (lower (group1 m))"
  proof (intro ballI impI)
    fix c assume "c \<in> set ?out" and "ctype c = Code"
    then have "c \<in> set (filter (\<lambda>c. ctype c = Code) ?out)" by simp
    then have "\<exists>m'::rmatch. lower (group1 m') \<in> code_languages
               \<and> c = code_cell (rstrip (group2 m')) (lower (group1 m'))"
      unfolding codes by auto
    with assms(2) show "language c \<noteq> Some (lower (group1 m))"
      by (auto simp: code_cell_def)
  qed
  have ab: "?a < ?b" and bl: "?b \<le> length section" using p(4,5) by simp_all
  have first: "\<not> isspace (section ! ?a)" using t1(2) by simp
  have "section ! (?b - 3 + 2) = CHR 0x60" using t2(3) .
  moreover have "?b - 3 + 2 = ?b - 1" using p(4) by simp
  ultimately have lst: "\<not> isspace (section ! (?b - 1))" by simp
  have disj: "\<forall>m'\<in>set (finditer section).
          lower (group1 m') \<in> code_languages \<longrightarrow> ?b \<le> m_start m' \<or> m_end m' \<le> ?a"
    using finditer_disjoint [OF assms(1)] assms(2) by metis
  show "in_prose (slice section ?a ?b) ?out"
    using ab bl first lst disj by (rule extract_cells_keeps_span)
  have "slice section ?a ?b = slice section ?a (?a + 3) @ slice section (?a + 3) ?b"
    using p(4) by (intro slice_append) simp_all
  with p(3) show "prefix ''```'' (slice section ?a ?b)"
    by (simp add: ticks_at_def prefix_def)
  have "slice section ?a ?b = slice section ?a (?b - 3) @ slice section (?b - 3) (?b - 3 + 3)"
    using p(4) by (simp add: slice_append [of ?a "?b - 3" ?b])
  with p(6) show "suffix ''```'' (slice section ?a ?b)"
    by (simp add: ticks_at_def suffix_def)
qed

theorem C3_unlisted_language_witness:
  "extract_cells_from_section ''intro\<newline>```bash\<newline>echo hi\<newline>```\<newline>outro'' {''python''}
     = [markdown_cell ''intro\<newline>```bash\<newline>echo hi\<newline>```\<newline>outro'']
   \<and> in_prose ''```bash\<newline>echo hi\<newline>```''
        (extract_cells_from_section ''intro\<newline>```bash\<newline>echo hi\<newline>```\<newline>outro'' {''python''})
   \<and> in_prose ''```\<newline>plain\<newline>```''
        (extract_cells_from_section ''```\<newline>plain\<newline>```'' DEFAULT_CODE_LANGUAGES)"
proof -
  let ?s = "''intro\<newline>```bash\<newline>echo hi\<newline>```\<newline>outro''"
  let ?m = "\<lparr>m_start = 6, m_end = 25, group1 = ''bash'', group2 = ''echo hi\<newline>''\<rparr>"
  let ?u = "''```\<newline>plain\<newline>```''"
  let ?n = "\<lparr>m_start = 0, m_end = 13, group1 = [], group2 = ''plain\<newline>''\<rparr>"
  have h1: "?m \<in> set (finditer ?s)" by code_simp
  have h2: "lower (group1 ?m) \<notin> {''python''}" by code_simp
  have s1: "slice ?s (m_start ?m) (m_end ?m) = ''```bash\<newline>echo hi\<newline>```''" by code_simp
  have g1: "?n \<in> set (finditer ?u)" by code_simp
  have g2: "lower (group1 ?n) \<notin> DEFAULT_CODE_LANGUAGES" by code_simp
  have s2: "slice ?u (m_start ?n) (m_end ?n) = ?u" by code_simp
  have e: "extract_cells_from_section ?s {''python''} = [markdown_cell ?s]" by code_simp
  from C3_unlisted_language_stays_prose [OF h1 h2]
  have "in_prose (slice ?s (m_start ?m) (m_end ?m)) (extract_cells_from_section ?s {''python''})"
    by blast
  then have a: "in_prose ''```bash\<newline>echo hi\<newline>```'' (extract_cells_from_section ?s {''python''})"
    unfolding s1 .
  from C3_unlisted_language_stays_prose [OF g1 g2]
  have "in_prose (slice ?u (m_start ?n) (m_end ?n))
          (extract_cells_from_section ?u DEFAULT_CODE_LANGUAGES)"
    by blast
  then have b: "in_prose ?u (extract_cells_from_section ?u DEFAULT_CODE_LANGUAGES)"
    unfolding s2 .
  from e a b show ?thesis by blast
qed

text \<open>
  Claim C10, as stated, ends with: an indented fenced block always remains inside the
  surrounding prose block. The section below holds an indented fenced block, tagged
  \<^verbatim>\<open>python\<close>, between the fence lines of a fenced block that starts at the beginning of
  a line. The segmenter's test accepts the indented fence line; the extractor yields one
  code block and no prose block, and the text of the indented block is part of the
  content of that code block.
\<close>

theorem C10_indented_fence_counterexample:
  "fence_line ''  ```python''
   \<and> extract_cells_from_section
         ''```python\<newline>a\<newline>  ```python\<newline>b\<newline>  ```\<newline>c\<newline>```'' {''python''}
       = [code_cell ''a\<newline>  ```python\<newline>b\<newline>  ```\<newline>c'' ''python'']
   \<and> slice ''```python\<newline>a\<newline>  ```python\<newline>b\<newline>  ```\<newline>c\<newline>```'' 12 31
       = ''  ```python\<newline>b\<newline>  ```''
   \<and> \<not> in_prose ''  ```python\<newline>b\<newline>  ```''
         (extract_cells_from_section
            ''```python\<newline>a\<newline>  ```python\<newline>b\<newline>  ```\<newline>c\<newline>```'' {''python''})"
proof -
  let ?s = "''```python\<newline>a\<newline>  ```python\<newline>b\<newline>  ```\<newline>c\<newline>```''"
  have f: "fence_line ''  ```python''" by code_simp
  have e: "extract_cells_from_section ?s {''python''}
             = [code_cell ''a\<newline>  ```python\<newline>b\<newline>  ```\<newline>c'' ''python'']"
    by code_simp
  have s: "slice ?s 12 31 = ''  ```python\<newline>b\<newline>  ```''" by code_simp
  have n: "\<not> in_prose ''  ```python\<newline>b\<newline>  ```'' (extract_cells_from_section ?s {''python''})"
    unfolding e by (simp add: in_prose_def code_cell_def)
  from f e s n show ?thesis by blast
qed

text \<open>
  Claim C10, amended. For every section and every allow set:
  \<^item> every match of the extractor's pattern begins at the start of a line, so no match
    begins at backticks that follow another character of their line, and the code
    blocks of the output are exactly those of the matches whose lower-cased tag is in the
    allow set: an indented fence never opens an extracted code block, whatever its tag;
  \<^item> the segmenter's fence test accepts a fence line after leading whitespace;
  \<^item> a part of the section that begins and ends with a character that is not whitespace
    (such as an indented fenced block, from its first backtick to its last) is a
    contiguous part of a prose block whenever it meets no extracted match;
  \<^item> a section none of whose lines begins with three backticks yields its trimmed text
    as a single prose block (or nothing when that is empty).
\<close>

theorem C10_indented_fence_amended:
  "(\<forall>m\<in>set (finditer section). at_bol section (m_start m))
   \<and> (0 < p \<and> section ! (p - 1) \<noteq> CHR 0x0A \<longrightarrow> (\<forall>m\<in>set (finditer section). m_start m \<noteq> p))
   \<and> filter (\<lambda>c. ctype c = Code) (extract_cells_from_section section code_languages)
       = map (\<lambda>m. code_cell (rstrip (group2 m)) (lower (group1 m)))
           (filter (\<lambda>m. lower (group1 m) \<in> code_languages) (finditer section))
   \<and> ((\<forall>c\<in>set ws. isspace c) \<longrightarrow> fence_line (ws @ ''```'' @ rest))
   \<and> (a < b \<and> b \<le> length section \<and> \<not> isspace (section ! a) \<and> \<not> isspace (section ! (b - 1))
        \<and> (\<forall>m\<in>set (finditer section).
               lower (group1 m) \<in> code_languages \<longrightarrow> b \<le> m_start m \<or> m_end m \<le> a)
       \<longrightarrow> in_prose (slice section a b) (extract_cells_from_section section code_languages))
   \<and> ((\<forall>l\<in>set (split_nl section). \<not> startswith l ''```'') \<longrightarrow>
         extract_cells_from_section section code_languages
           = (if strip section \<noteq> [] then [markdown_cell (strip section)] else []))"
proof (intro conjI impI)
  show bol: "\<forall>m\<in>set (finditer section). at_bol section (m_start m)"
    using finditer_props(2) by blast
  show "\<forall>m\<in>set (finditer section). m_start m \<noteq> p"
    if "0 < p \<and> section ! (p - 1) \<noteq> CHR 0x0A"
    using that bol by (auto simp: at_bol_def)
  show "filter (\<lambda>c. ctype c = Code) (extract_cells_from_section section code_languages)
       = map (\<lambda>m. code_cell (rstrip (group2 m)) (lower (group1 m)))
           (filter (\<lambda>m. lower (group1 m) \<in> code_languages) (finditer section))"
    by (rule extract_cells_code_blocks)
  show "fence_line (ws @ ''```'' @ rest)" if "\<forall>c\<in>set ws. isspace c"
    using that by (rule fence_line_indented)
  show "in_prose (slice section a b) (extract_cells_from_section section code_languages)"
    if "a < b \<and> b \<le> length section \<and> \<not> isspace (section ! a) \<and> \<not> isspace (section ! (b - 1))
        \<and> (\<forall>m\<in>set (finditer section).
               lower (group1 m) \<in> code_languages \<longrightarrow> b \<le> m_start m \<or> m_end m \<le> a)"
    using that by (intro extract_cells_keeps_span) simp_all
  show "extract_cells_from_section section code_languages
           = (if strip section \<noteq> [] then [markdown_cell (strip section)] else [])"
    if "\<forall>l\<in>set (split_nl section). \<not> startswith l ''```''"
    using finditer_no_fence_lines [OF that]
    by (simp add: extract_cells_from_section_def Let_def)
qed

theorem C10_indented_fence_amended_witness:
  "7 \<notin> set (map m_start (finditer ''text\<newline>  ```python\<newline>x = 1\<newline>  ```\<newline>more''))
   \<and> fence_line ''  ```python''
   \<and> in_prose ''```python\<newline>x = 1\<newline>  ```''
        (extract_cells_from_section ''text\<newline>  ```python\<newline>x = 1\<newline>  ```\<newline>more'' {''python''})
   \<and> extract_cells_from_section ''text\<newline>  ```python\<newline>x = 1\<newline>  ```\<newline>more'' {''python''}
       = [markdown_cell ''text\<newline>  ```python\<newline>x = 1\<newline>  ```\<newline>more'']"
proof -
  let ?s = "''text\<newline>  ```python\<newline>x = 1\<newline>  ```\<newline>more''"
  note inst = C10_indented_fence_amended
    [of ?s 7 "{''python''}" "''  ''" "''python''" 7 28]
  have h1: "(0::nat) < 7 \<and> ?s ! (7 - 1) \<noteq> CHR 0x0A" by code_simp
  have h2: "\<forall>c\<in>set ''  ''. isspace c" by code_simp
  have h3: "(7::nat) < 28 \<and> 28 \<le> length ?s \<and> \<not> isspace (?s ! 7) \<and> \<not> isspace (?s ! (28 - 1))
        \<and> (\<forall>m\<in>set (finditer ?s).
               lower (group1 m) \<in> {''python''} \<longrightarrow> 28 \<le> m_start m \<or> m_end m \<le> 7)"
    by code_simp
  have h4: "\<forall>l\<in>set (split_nl ?s). \<not> startswith l ''```''" by code_simp
  have s: "slice ?s 7 28 = ''```python\<newline>x = 1\<newline>  ```''" by code_simp
  have t: "strip ?s = ?s" by code_simp
  from inst h1 have "\<forall>m\<in>set (finditer ?s). m_start m \<noteq> 7" by blast
  then have a: "7 \<notin> set (map m_start (finditer ?s))" by auto
  from inst h2 have b: "fence_line (''  '' @ ''```'' @ ''python'')" by blast
  from inst h3 have "in_prose (slice ?s 7 28) (extract_cells_from_section ?s {''python''})"
    by blast
  then have c: "in_prose ''```python\<newline>x = 1\<newline>  ```'' (extract_cells_from_section ?s {''python''})"
    unfolding s .
  from inst h4 have "extract_cells_from_section ?s {''python''}
           = (if strip ?s \<noteq> [] then [markdown_cell (strip ?s)] else [])" by blast
  then have d: "extract_cells_from_section ?s {''python''} = [markdown_cell ?s]"
    unfolding t by simp
  from a b c d show ?thesis by simp
qed

section \<open>The open fence at the end of the text\<close>

lemma seg_step_open_fence:
  assumes "in_code_block st \<longrightarrow> (\<exists>l\<in>set (current_section st). fence_line l)"
  shows "in_code_block (seg_step d st l)
           \<longrightarrow> (\<exists>l'\<in>set (current_section (seg_step d st l)). fence_line l')"
  using assms by (auto simp: seg_step_def fence_line_def Let_def)

lemma seg_run_open_fence:
  "in_code_block st \<longrightarrow> (\<exists>l\<in>set (current_section st). fence_line l) \<Longrightarrow>
   in_code_block (seg_run d st ls)
     \<longrightarrow> (\<exists>l\<in>set (current_section (seg_run d st ls)). fence_line l)"
proof (induction ls arbitrary: st)
  case Nil
  then show ?case by simp
next
  case (Cons l ls)
  from Cons.IH [OF seg_step_open_fence [OF Cons.prems]] show ?case by simp
qed

lemma strip_join_fence:
  assumes "l \<in> set ls" and "fence_line l"
  shows "strip (join_nl ls) \<noteq> []"
proof -
  from assms have "CHR 0x60 \<in> set (join_nl ls)"
    using set_line_join_nl fence_line_tick by blast
  with not_isspace_tick have "\<exists>c\<in>set (join_nl ls). \<not> isspace c" by blast
  then show ?thesis by (simp add: strip_eq_Nil)
qed

text \<open>
  Claim C8. The parsing core returns a result for every text and every allow set. In the
  model this is the fact that its functions are total: the stripper and the segmenter
  run once over the finite list of lines, the scan of the extractor is defined with a
  measure that decreases at every step, and no operation of the source has a failing
  case (a slice never raises, every block has its three keys). What the claim says of
  malformed input is proved on the results:
  \<^item> when the text has an odd number of fence lines, so that a fence is still open at
    the end, the result of the segmenter is not empty and its last section is the
    trimmed buffer of the final flush, which holds the opening fence line;
  \<^item> every match lies inside the section, so every slice the extractor takes is in
    range;
  \<^item> a text with no section yields the empty list of blocks, sections without a block
    yield the empty list of blocks, and the assembler makes one cell per block, none
    for the empty list.
\<close>

theorem C8_parsing_core_total:
  "(odd (length (filter fence_line (split_nl doc))) \<longrightarrow>
      split_by_delimiter doc ''---'' \<noteq> []
      \<and> last (split_by_delimiter doc ''---'')
          = strip (join_nl (current_section (seg_run ''---'' seg_init (split_nl doc))))
      \<and> (\<exists>l\<in>set (current_section (seg_run ''---'' seg_init (split_nl doc))). fence_line l))
   \<and> (\<forall>m\<in>set (finditer section). m_start m < m_end m \<and> m_end m \<le> length section)
   \<and> (split_by_delimiter (remove_front_matter doc) ''---'' = [] \<longrightarrow> parse_markdown doc langs = [])
   \<and> ((\<forall>s\<in>set (split_by_delimiter (remove_front_matter doc) ''---'').
          extract_cells_from_section s (case langs of None \<Rightarrow> DEFAULT_CODE_LANGUAGES | Some l \<Rightarrow> l) = [])
        \<longrightarrow> parse_markdown doc langs = [])
   \<and> length (create_notebook cells) = length cells
   \<and> create_notebook (parse_markdown [] langs) = []"
proof (intro conjI impI)
  let ?st = "seg_run ''---'' seg_init (split_nl doc)"
  assume "odd (length (filter fence_line (split_nl doc)))"
  then have "in_code_block ?st" by (simp add: in_code_block_seg_run seg_init_def)
  moreover have "in_code_block ?st \<longrightarrow> (\<exists>l\<in>set (current_section ?st). fence_line l)"
    by (rule seg_run_open_fence) (simp add: seg_init_def)
  ultimately show f: "\<exists>l\<in>set (current_section ?st). fence_line l" by blast
  then have ne: "strip (join_nl (current_section ?st)) \<noteq> []"
    using strip_join_fence by blast
  then show "split_by_delimiter doc ''---'' \<noteq> []"
    by (simp add: split_by_delimiter_def save_section_def Let_def)
  from ne show "last (split_by_delimiter doc ''---'') = strip (join_nl (current_section ?st))"
    by (simp add: split_by_delimiter_def save_section_def Let_def)
next
  show "\<forall>m\<in>set (finditer section). m_start m < m_end m \<and> m_end m \<le> length section"
    using finditer_props(4,5) by fastforce
next
  assume "split_by_delimiter (remove_front_matter doc) ''---'' = []"
  then show "parse_markdown doc langs = []" by (simp add: parse_markdown_def Let_def)
next
  assume "\<forall>s\<in>set (split_by_delimiter (remove_front_matter doc) ''---'').
          extract_cells_from_section s (case langs of None \<Rightarrow> DEFAULT_CODE_LANGUAGES | Some l \<Rightarrow> l) = []"
  then have "concat (map (\<lambda>s. extract_cells_from_section s
                 (case langs of None \<Rightarrow> DEFAULT_CODE_LANGUAGES | Some l \<Rightarrow> l))
               (split_by_delimiter (remove_front_matter doc) ''---'')) = []"
    by simp
  then show "parse_markdown doc langs = []" by (simp add: parse_markdown_def Let_def)
next
  show "length (create_notebook cells) = length cells" by (simp add: create_notebook_map)
next
  have "parse_markdown [] langs = []"
    using split_by_delimiter_blank [of "[]" "''---''"] remove_front_matter_blank [of "[]"]
    by (simp add: parse_markdown_def Let_def)
  then show "create_notebook (parse_markdown [] langs) = []" by (simp add: create_notebook_map)
qed

theorem C8_parsing_core_total_witness:
  "split_by_delimiter ''intro\<newline>---\<newline>```python\<newline>x = 1\<newline>---\<newline>y'' ''---''
     = [''intro'', ''```python\<newline>x = 1\<newline>---\<newline>y'']
   \<and> parse_markdown ''intro\<newline>---\<newline>```python\<newline>x = 1\<newline>---\<newline>y'' None
     = [markdown_cell ''intro'', markdown_cell ''```python\<newline>x = 1\<newline>---\<newline>y'']
   \<and> parse_markdown ''---\<newline>\<newline>---'' None = []"
proof -
  let ?d = "''intro\<newline>---\<newline>```python\<newline>x = 1\<newline>---\<newline>y''"
  let ?e = "''---\<newline>\<newline>---''"
  have h: "odd (length (filter fence_line (split_nl ?d)))" by code_simp
  have c: "strip (join_nl (current_section (seg_run ''---'' seg_init (split_nl ?d))))
             = ''```python\<newline>x = 1\<newline>---\<newline>y''" by code_simp
  have b: "butlast (split_by_delimiter ?d ''---'') = [''intro'']" by code_simp
  have p: "parse_markdown ?d None
     = [markdown_cell ''intro'', markdown_cell ''```python\<newline>x = 1\<newline>---\<newline>y'']"
    by code_simp
  have z: "split_by_delimiter (remove_front_matter ?e) ''---'' = []" by code_simp
  from C8_parsing_core_total [of ?d "[]" None "[]"] h
  have "split_by_delimiter ?d ''---'' \<noteq> []
      \<and> last (split_by_delimiter ?d ''---'')
          = strip (join_nl (current_section (seg_run ''---'' seg_init (split_nl ?d))))"
    by blast
  then have "split_by_delimiter ?d ''---'' \<noteq> []"
    and "last (split_by_delimiter ?d ''---'') = ''```python\<newline>x = 1\<newline>---\<newline>y''"
    unfolding c by blast+
  then have "split_by_delimiter ?d ''---'' = butlast (split_by_delimiter ?d ''---'')
                @ [''```python\<newline>x = 1\<newline>---\<newline>y'']"
    by (metis append_butlast_last_id)
  then have s: "split_by_delimiter ?d ''---'' = [''intro'', ''```python\<newline>x = 1\<newline>---\<newline>y'']"
    unfolding b by simp
  from C8_parsing_core_total [of ?e "[]" None "[]"] z
  have e: "parse_markdown ?e None = []" by blast
  from s p e show ?thesis by blast
qed

section \<open>Facts about lower-casing\<close>

lemma of_char_lower_char:
  "(of_char (lower_char c) :: nat) =
     (let n = (of_char c :: nat)
      in if (65 \<le> n \<and> n \<le> 90) \<or> (192 \<le> n \<and> n \<le> 214) \<or> (216 \<le> n \<and> n \<le> 222)
         then n + 32 else n)"
  by (auto simp: lower_char_def Let_def)

lemma isword_lower_char [simp]: "isword (lower_char c) = isword c"
  unfolding isword_def of_char_lower_char Let_def by auto

lemma isspace_lower_char [simp]: "isspace (lower_char c) = isspace c"
  unfolding isspace_def of_char_lower_char Let_def by auto

lemma of_char_eq_iff: "(of_char c :: nat) = of_char d \<longleftrightarrow> c = d"
  by (metis char_of_char)

lemma lower_char_eq_nl [simp]: "lower_char c = CHR 0x0A \<longleftrightarrow> c = CHR 0x0A"
proof -
  have "lower_char c = CHR 0x0A \<longleftrightarrow> (of_char (lower_char c) :: nat) = of_char CHR 0x0A"
    by (simp only: of_char_eq_iff)
  also have "\<dots> \<longleftrightarrow> (of_char c :: nat) = of_char CHR 0x0A"
    unfolding of_char_lower_char Let_def by auto
  also have "\<dots> \<longleftrightarrow> c = CHR 0x0A" by (simp only: of_char_eq_iff)
  finally show ?thesis .
qed

lemma lower_char_eq_tick [simp]: "lower_char c = CHR 0x60 \<longleftrightarrow> c = CHR 0x60"
proof -
  have "lower_char c = CHR 0x60 \<longleftrightarrow> (of_char (lower_char c) :: nat) = of_char CHR 0x60"
    by (simp only: of_char_eq_iff)
  also have "\<dots> \<longleftrightarrow> (of_char c :: nat) = of_char CHR 0x60"
    unfolding of_char_lower_char Let_def by auto
  also have "\<dots> \<longleftrightarrow> c = CHR 0x60" by (simp only: of_char_eq_iff)
  finally show ?thesis .
qed

lemma lower_char_idem [simp]: "lower_char (lower_char c) = lower_char c"
proof -
  have "(of_char (lower_char (lower_char c)) :: nat) = of_char (lower_char c)"
    unfolding of_char_lower_char [of "lower_char c"] unfolding of_char_lower_char Let_def
    by auto
  then show ?thesis by (simp only: of_char_eq_iff)
qed

lemma lower_idem [simp]: "lower (lower s) = lower s"
  by (simp add: lower_def)

lemma length_lower [simp]: "length (lower s) = length s"
  by (simp add: lower_def)

lemma lower_eq_Nil [simp]: "lower s = [] \<longleftrightarrow> s = []"
  by (simp add: lower_def)




lemma slice_lower: "slice (lower s) a b = lower (slice s a b)"
  by (simp add: slice_def lower_def take_map drop_map)

lemma lower_eq_ticks [simp]: "lower x = ''```'' \<longleftrightarrow> x = ''```''"
  by (auto simp: lower_def)

lemma nth_lower: "i < length s \<Longrightarrow> lower s ! i = lower_char (s ! i)"
  by (simp add: lower_def)

lemma at_bol_lower [simp]: "at_bol (lower s) p = at_bol s p"
  by (cases "p = 0") (auto simp: at_bol_def nth_lower)

lemma at_eol_lower [simp]: "at_eol (lower s) p = at_eol s p"
  by (auto simp: at_eol_def nth_lower)

lemma ticks_at_lower [simp]: "ticks_at (lower s) p = ticks_at s p"
  by (simp add: ticks_at_def slice_lower)

lemma find_close_lower [simp]: "find_close (lower s) q = find_close s q"
proof (induction s q rule: find_close.induct)
  case (1 s q)
  show ?case
  proof (cases "length s < q + 3")
    case True
    then show ?thesis by (simp add: find_close.simps [of s q] find_close.simps [of "lower s" q])
  next
    case False
    with "1.IH" show ?thesis
      by (simp add: find_close.simps [of s q] find_close.simps [of "lower s" q])
  qed
qed



lemma m_end_lower_match [simp]: "m_end (lower_match m) = m_end m"
  by (simp add: lower_match_def)

lemma m_start_lower_match [simp]: "m_start (lower_match m) = m_start m"
  by (simp add: lower_match_def)

lemma group1_lower_match [simp]: "group1 (lower_match m) = lower (group1 m)"
  by (simp add: lower_match_def)

lemma group2_lower_match [simp]: "group2 (lower_match m) = lower (group2 m)"
  by (simp add: lower_match_def)








section \<open>Facts about re-segmentation\<close>

lemma fence_scan_append:
  "fence_scan d b (xs @ ys)
     = (case fence_scan d b xs of None \<Rightarrow> None | Some b' \<Rightarrow> fence_scan d b' ys)"
  by (induction xs arbitrary: b) auto

lemma fence_scan_cong:
  "map strip ls = map strip ls' \<Longrightarrow> fence_scan d b ls = fence_scan d b ls'"
proof (induction ls arbitrary: ls' b)
  case Nil
  then show ?case by simp
next
  case (Cons l ls)
  then obtain l' ls'' where l': "ls' = l' # ls''" "strip l = strip l'" "map strip ls = map strip ls''"
    by (cases ls') auto
  then have "fence_line l = fence_line l'" by (simp add: fence_line_def)
  with Cons.IH [OF l'(3)] l' show ?case by simp
qed

lemma fence_scan_run:
  "fence_scan d (in_code_block st) ls = Some b' \<Longrightarrow>
   seg_run d st ls = st\<lparr>current_section := current_section st @ ls, in_code_block := b'\<rparr>"
proof (induction ls arbitrary: st)
  case Nil
  then show ?case by simp
next
  case (Cons l ls)
  show ?case
  proof (cases "fence_line l")
    case True
    with Cons.prems have "fence_scan d (in_code_block (seg_step d st l)) ls = Some b'"
      by (simp add: seg_step_fence)
    from Cons.IH [OF this] True show ?thesis by (simp add: seg_step_fence)
  next
    case False
    with Cons.prems have nd: "\<not> (\<not> in_code_block st \<and> strip l = d)"
      and sc: "fence_scan d (in_code_block st) ls = Some b'"
      by (auto split: if_splits)
    from nd False have st: "seg_step d st l = st\<lparr>current_section := current_section st @ [l]\<rparr>"
      by (auto simp: seg_step_inside seg_step_other)
    with sc have "fence_scan d (in_code_block (seg_step d st l)) ls = Some b'" by simp
    from Cons.IH [OF this] st show ?thesis by simp
  qed
qed

lemma fence_scan_blank: "d \<noteq> [] \<Longrightarrow> fence_scan d b ([] # ls) = fence_scan d b ls"
  by (auto simp: fence_line_def startswith_append)

lemma map_strip_split_nl_Cons:
  assumes "isspace c" and "c \<noteq> CHR 0x0A"
  shows "map strip (split_nl (c # T)) = map strip (split_nl T)"
proof -
  obtain l ls where "split_nl T = l # ls" by (cases "split_nl T") auto
  with assms show ?thesis by (simp add: strip_Cons_space)
qed

lemma fence_scan_lstrip:
  "d \<noteq> [] \<Longrightarrow> fence_scan d b (split_nl (lstrip T)) = fence_scan d b (split_nl T)"
proof (induction T)
  case Nil
  show ?case by (simp add: lstrip_def)
next
  case (Cons c T)
  show ?case
  proof (cases "isspace c")
    case False
    then show ?thesis by (simp add: lstrip_def)
  next
    case True
    then have l: "lstrip (c # T) = lstrip T" by (simp add: lstrip_def)
    show ?thesis
    proof (cases "c = CHR 0x0A")
      case True
      with Cons l show ?thesis by (simp add: fence_scan_blank del: fence_scan.simps)
    next
      case False
      from map_strip_split_nl_Cons [OF True False]
      have "fence_scan d b (split_nl (c # T)) = fence_scan d b (split_nl T)"
        by (rule fence_scan_cong)
      with Cons l show ?thesis by simp
    qed
  qed
qed

lemma split_nl_snoc_nl: "split_nl (T @ [CHR 0x0A]) = split_nl T @ [[]]"
  using split_nl_append_nl [of T "[]"] by simp

lemma split_nl_snoc:
  "c \<noteq> CHR 0x0A \<Longrightarrow> split_nl (T @ [c]) = butlast (split_nl T) @ [last (split_nl T) @ [c]]"
proof (induction T)
  case Nil
  then show ?case by simp
next
  case (Cons a T)
  obtain x xs where X: "split_nl T = x # xs" by (cases "split_nl T") auto
  show ?case
  proof (cases "a = CHR 0x0A")
    case True
    with Cons X show ?thesis by simp
  next
    case False
    with Cons X show ?thesis by (cases xs) auto
  qed
qed

lemma fence_scan_rstrip:
  "d \<noteq> [] \<Longrightarrow> fence_scan d b (split_nl (rstrip T)) = fence_scan d b (split_nl T)"
proof (induction T rule: rev_induct)
  case Nil
  show ?case by simp
next
  case (snoc c T)
  show ?case
  proof (cases "isspace c")
    case False
    then show ?thesis by (simp add: rstrip_snoc)
  next
    case True
    then have r: "rstrip (T @ [c]) = rstrip T" by (simp add: rstrip_snoc)
    show ?thesis
    proof (cases "c = CHR 0x0A")
      case True
      have "fence_scan d b (split_nl T @ [[]]) = fence_scan d b (split_nl T)"
        using snoc.prems
        by (auto simp: fence_scan_append fence_line_def startswith_append split: option.splits)
      with snoc r True show ?thesis by (simp add: split_nl_snoc_nl)
    next
      case False
      have "split_nl T = butlast (split_nl T) @ [last (split_nl T)]" by simp
      then have "map strip (split_nl T)
                   = map strip (butlast (split_nl T)) @ [strip (last (split_nl T))]"
        by (metis list.simps(8,9) map_append)
      then have "map strip (split_nl (T @ [c])) = map strip (split_nl T)"
        using True False by (simp add: split_nl_snoc strip_snoc_space)
      then have "fence_scan d b (split_nl (T @ [c])) = fence_scan d b (split_nl T)"
        by (rule fence_scan_cong)
      with snoc r show ?thesis by simp
    qed
  qed
qed

lemma fence_scan_strip:
  "d \<noteq> [] \<Longrightarrow> fence_scan d b (split_nl (strip T)) = fence_scan d b (split_nl T)"
  by (simp add: strip_def fence_scan_rstrip fence_scan_lstrip)

lemma save_section_ok:
  assumes "d \<noteq> []" and "\<forall>l\<in>set cur. CHR 0x0A \<notin> set l"
    and "fence_scan d False cur = Some b" and "strip (join_nl cur) \<noteq> []"
  shows "section_ok d b (strip (join_nl cur))"
proof -
  from assms(4) have "cur \<noteq> []" by auto
  with assms(2) have "split_nl (join_nl cur) = cur" by (simp add: split_join_nl)
  with assms(1,3) have "fence_scan d False (split_nl (strip (join_nl cur))) = Some b"
    by (simp add: fence_scan_strip)
  with assms(4) show ?thesis by (simp add: section_ok_def)
qed

lemma seg_inv_init: "seg_inv d seg_init"
  by (simp add: seg_inv_def seg_init_def)

lemma seg_inv_step:
  assumes "seg_inv d st" and "d \<noteq> []" and "CHR 0x0A \<notin> set l"
  shows "seg_inv d (seg_step d st l)"
proof (cases "fence_line l")
  case True
  with assms show ?thesis
    by (simp add: seg_inv_def seg_step_fence fence_scan_append)
next
  case nf: False
  show ?thesis
  proof (cases "\<not> in_code_block st \<and> strip l = d")
    case True
    with nf have st: "seg_step d st l
        = st\<lparr>sections := save_section (sections st) (current_section st), current_section := []\<rparr>"
      by (simp add: seg_step_delimiter)
    from assms(1) True have sc: "fence_scan d False (current_section st) = Some False"
      and nl: "\<forall>l\<in>set (current_section st). CHR 0x0A \<notin> set l"
      and ok: "\<forall>S\<in>set (sections st). section_ok d False S"
      by (simp_all add: seg_inv_def)
    have "\<forall>S\<in>set (save_section (sections st) (current_section st)). section_ok d False S"
      using ok save_section_ok [OF assms(2) nl sc]
      by (auto simp: save_section_def Let_def)
    with True show ?thesis by (simp add: st seg_inv_def)
  next
    case False
    with nf have st: "seg_step d st l = st\<lparr>current_section := current_section st @ [l]\<rparr>"
      by (auto simp: seg_step_inside seg_step_other)
    from assms False nf show ?thesis
      by (auto simp: st seg_inv_def fence_scan_append)
  qed
qed

lemma seg_inv_run:
  "seg_inv d st \<Longrightarrow> d \<noteq> [] \<Longrightarrow> \<forall>l\<in>set ls. CHR 0x0A \<notin> set l \<Longrightarrow> seg_inv d (seg_run d st ls)"
proof (induction ls arbitrary: st)
  case Nil
  then show ?case by simp
next
  case (Cons l ls)
  from Cons.prems have "seg_inv d (seg_step d st l)" by (simp add: seg_inv_step)
  from Cons.IH [OF this] Cons.prems show ?case by simp
qed

text \<open>
  The sections returned by \<open>split_by_delimiter\<close>: all well formed, all but the last
  with a closed fence.
\<close>

lemma split_by_delimiter_ok:
  assumes "d \<noteq> []"
  shows "\<exists>R0 b. (\<forall>S\<in>set R0. section_ok d False S)
           \<and> (split_by_delimiter doc d = R0
               \<or> (\<exists>S. section_ok d b S \<and> split_by_delimiter doc d = R0 @ [S]))"
proof -
  let ?st = "seg_run d seg_init (split_nl doc)"
  have "seg_inv d ?st"
    using seg_inv_init assms split_nl_lines by (intro seg_inv_run) auto
  then have sc: "fence_scan d False (current_section ?st) = Some (in_code_block ?st)"
    and nl: "\<forall>l\<in>set (current_section ?st). CHR 0x0A \<notin> set l"
    and ok: "\<forall>S\<in>set (sections ?st). section_ok d False S"
    by (simp_all add: seg_inv_def)
  show ?thesis
  proof (cases "strip (join_nl (current_section ?st)) = []")
    case True
    then have "split_by_delimiter doc d = sections ?st"
      by (simp add: split_by_delimiter_def save_section_def Let_def)
    with ok show ?thesis by blast
  next
    case False
    then have "split_by_delimiter doc d
                 = sections ?st @ [strip (join_nl (current_section ?st))]"
      by (simp add: split_by_delimiter_def save_section_def Let_def)
    moreover have "section_ok d (in_code_block ?st) (strip (join_nl (current_section ?st)))"
      using assms nl sc False by (rule save_section_ok)
    ultimately show ?thesis using ok by blast
  qed
qed

lemma join_sections_Cons:
  "ss \<noteq> [] \<Longrightarrow> join_sections (s # ss) = s @ ''\<newline>---\<newline>'' @ join_sections ss"
  by (cases ss) auto

lemma split_nl_join_sections_Cons:
  "ss \<noteq> [] \<Longrightarrow>
   split_nl (join_sections (s # ss)) = split_nl s @ [''---''] @ split_nl (join_sections ss)"
proof -
  assume "ss \<noteq> []"
  then have "join_sections (s # ss) = s @ CHR 0x0A # (''---'' @ CHR 0x0A # join_sections ss)"
    by (simp add: join_sections_Cons)
  then have "split_nl (join_sections (s # ss))
               = split_nl s @ split_nl (''---'' @ CHR 0x0A # join_sections ss)"
    by (simp only: split_nl_append_nl)
  also have "split_nl (''---'' @ CHR 0x0A # join_sections ss)
               = ''---'' # split_nl (join_sections ss)"
    by (rule split_nl_append) simp
  finally show ?thesis by simp
qed

lemma strip_dashes: "strip ''---'' = ''---''"
  by (simp add: strip_def lstrip_def rstrip_def)

lemma seg_run_section:
  assumes "section_ok d b S" and "\<not> in_code_block st" and "current_section st = []"
  shows "seg_run d st (split_nl S) = st\<lparr>current_section := split_nl S, in_code_block := b\<rparr>"
  using fence_scan_run [of d st "split_nl S" b] assms by (simp add: section_ok_def)

lemma seg_run_rejoin:
  assumes "\<forall>S\<in>set R0. section_ok ''---'' False S" and "section_ok ''---'' b S"
    and "\<not> in_code_block st" and "current_section st = []"
  shows "seg_run ''---'' st (split_nl (join_sections (R0 @ [S])))
           = st\<lparr>sections := sections st @ R0, current_section := split_nl S, in_code_block := b\<rparr>"
  using assms(1,3,4)
proof (induction R0 arbitrary: st)
  case Nil
  with seg_run_section [OF assms(2)] show ?case by simp
next
  case (Cons S0 R0)
  let ?st1 = "st\<lparr>current_section := split_nl S0\<rparr>"
  let ?st2 = "st\<lparr>sections := sections st @ [S0]\<rparr>"
  from Cons.prems have ok0: "section_ok ''---'' False S0" by simp
  have run1: "seg_run ''---'' st (split_nl S0) = ?st1"
    using seg_run_section [OF ok0 Cons.prems(2,3)] Cons.prems(2) by simp
  have "strip (join_nl (split_nl S0)) = S0" and "S0 \<noteq> []"
    using ok0 by (simp_all add: section_ok_def)
  then have save: "save_section (sections st) (split_nl S0) = sections st @ [S0]"
    by (simp add: save_section_def)
  have step: "seg_step ''---'' ?st1 ''---'' = ?st2"
    using Cons.prems(2,3) save
    by (simp add: seg_step_delimiter not_fence_dashes strip_dashes)
  have "split_nl (join_sections ((S0 # R0) @ [S]))
          = split_nl S0 @ [''---''] @ split_nl (join_sections (R0 @ [S]))"
    using split_nl_join_sections_Cons [of "R0 @ [S]" S0] by simp
  then have "seg_run ''---'' st (split_nl (join_sections ((S0 # R0) @ [S])))
               = seg_run ''---'' ?st2 (split_nl (join_sections (R0 @ [S])))"
    by (simp add: seg_run_append run1 step)
  also have "\<dots> = ?st2\<lparr>sections := sections ?st2 @ R0, current_section := split_nl S,
                         in_code_block := b\<rparr>"
    using Cons.prems by (intro Cons.IH) simp_all
  finally show ?case by simp
qed

lemma resplit_sections:
  assumes "\<forall>S\<in>set R0. section_ok ''---'' False S" and "section_ok ''---'' b S"
  shows "split_by_delimiter (join_sections (R0 @ [S])) ''---'' = R0 @ [S]"
proof -
  have "seg_run ''---'' seg_init (split_nl (join_sections (R0 @ [S])))
          = seg_init\<lparr>sections := sections seg_init @ R0, current_section := split_nl S,
                      in_code_block := b\<rparr>"
    using assms by (rule seg_run_rejoin) (simp_all add: seg_init_def)
  moreover have "strip (join_nl (split_nl S)) = S" and "S \<noteq> []"
    using assms(2) by (simp_all add: section_ok_def)
  ultimately show ?thesis
    by (simp add: split_by_delimiter_def save_section_def seg_init_def)
qed

lemma resplit_empty: "split_by_delimiter (join_sections []) ''---'' = []"
  using split_by_delimiter_blank [of "[]" "''---''"] by simp

section \<open>Claim about re-segmentation\<close>

text \<open>
  Claim C4. For every text, segmenting the text rebuilt from the sections of the
  segmenter, joined with delimiter lines (\<^verbatim>\<open>\n---\n\<close>), gives the same sections again.
\<close>

theorem C4_resegmentation_idempotent:
  "split_by_delimiter (join_sections (split_by_delimiter doc ''---'')) ''---''
     = split_by_delimiter doc ''---''"
proof -
  from split_by_delimiter_ok [of "''---''" doc]
  obtain R0 b where ok: "\<forall>S\<in>set R0. section_ok ''---'' False S"
    and res: "split_by_delimiter doc ''---'' = R0
               \<or> (\<exists>S. section_ok ''---'' b S \<and> split_by_delimiter doc ''---'' = R0 @ [S])"
    by auto
  from res show ?thesis
  proof
    assume r: "split_by_delimiter doc ''---'' = R0"
    show ?thesis
    proof (cases R0 rule: rev_cases)
      case Nil
      with r show ?thesis by (simp add: resplit_empty del: join_sections.simps)
    next
      case (snoc R1 S)
      with ok have "\<forall>S\<in>set R1. section_ok ''---'' False S" and "section_ok ''---'' False S"
        by simp_all
      then have "split_by_delimiter (join_sections (R1 @ [S])) ''---'' = R1 @ [S]"
        by (rule resplit_sections)
      with r snoc show ?thesis by simp
    qed
  next
    assume "\<exists>S. section_ok ''---'' b S \<and> split_by_delimiter doc ''---'' = R0 @ [S]"
    then obtain S where s: "section_ok ''---'' b S"
      and r: "split_by_delimiter doc ''---'' = R0 @ [S]" by blast
    from ok s have "split_by_delimiter (join_sections (R0 @ [S])) ''---'' = R0 @ [S]"
      by (rule resplit_sections)
    with r show ?thesis by simp
  qed
qed

theorem C4_resegmentation_witness:
  "split_by_delimiter (join_sections [''a'', ''```\<newline>---\<newline> ```'', ''x'']) ''---''
     = [''a'', ''```\<newline>---\<newline> ```'', ''x'']"
proof -
  let ?d = "''  a \<newline> --- \<newline>\<newline>```\<newline>---\<newline> ```  \<newline>---\<newline>---\<newline> x''"
  have e: "split_by_delimiter ?d ''---'' = [''a'', ''```\<newline>---\<newline> ```'', ''x'']"
    by code_simp
  from C4_resegmentation_idempotent [of ?d] show ?thesis unfolding e .
qed

end
